theory Spec2Isabelle
  imports Complex_Main "HOL-Library.Multiset" "HOL-Library.Word"
begin

section \<open>Go strings as byte lists\<close>

text \<open>
  A Go \<open>string\<close> is a sequence of bytes; \<open>len\<close> counts bytes and \<open>s[a:b]\<close> slices
  bytes. It is modelled as \<^typ>\<open>string\<close>, a list of 8-bit characters.
\<close>

definition slice :: "string \<Rightarrow> nat \<Rightarrow> nat \<Rightarrow> string" where
  "slice s a b = take (b - a) (drop a s)"

fun HasPrefix :: "string \<Rightarrow> string \<Rightarrow> bool" where
  "HasPrefix s [] = True"
| "HasPrefix [] (p # ps) = False"
| "HasPrefix (c # cs) (p # ps) = (c = p \<and> HasPrefix cs ps)"

fun Index :: "string \<Rightarrow> string \<Rightarrow> nat option" where
  "Index [] sub = (if sub = [] then Some 0 else None)"
| "Index (c # cs) sub =
     (if HasPrefix (c # cs) sub then Some 0
      else (case Index cs sub of None \<Rightarrow> None | Some i \<Rightarrow> Some (Suc i)))"

definition Contains :: "string \<Rightarrow> string \<Rightarrow> bool" where
  "Contains s sub = (Index s sub \<noteq> None)"

text \<open>
  \<open>strings.TrimSpace\<close> removes leading and trailing white space as Unicode defines it.
  The white-space runes are listed by their UTF-8 encodings: the six ASCII ones, then
  U+0085, U+00A0, U+1680, U+2000 to U+200A, U+2028, U+2029, U+202F, U+205F and U+3000.
\<close>

definition whiteSpace :: "string list" where
  "whiteSpace =
    [[CHR 0x09], [CHR 0x0A], [CHR 0x0B], [CHR 0x0C], [CHR 0x0D], [CHR 0x20],
     [CHR 0xC2, CHR 0x85], [CHR 0xC2, CHR 0xA0], [CHR 0xE1, CHR 0x9A, CHR 0x80],
     [CHR 0xE2, CHR 0x80, CHR 0x80], [CHR 0xE2, CHR 0x80, CHR 0x81],
     [CHR 0xE2, CHR 0x80, CHR 0x82], [CHR 0xE2, CHR 0x80, CHR 0x83],
     [CHR 0xE2, CHR 0x80, CHR 0x84], [CHR 0xE2, CHR 0x80, CHR 0x85],
     [CHR 0xE2, CHR 0x80, CHR 0x86], [CHR 0xE2, CHR 0x80, CHR 0x87],
     [CHR 0xE2, CHR 0x80, CHR 0x88], [CHR 0xE2, CHR 0x80, CHR 0x89],
     [CHR 0xE2, CHR 0x80, CHR 0x8A], [CHR 0xE2, CHR 0x80, CHR 0xA8],
     [CHR 0xE2, CHR 0x80, CHR 0xA9], [CHR 0xE2, CHR 0x80, CHR 0xAF],
     [CHR 0xE2, CHR 0x81, CHR 0x9F], [CHR 0xE3, CHR 0x80, CHR 0x80]]"

function stripTokens :: "string list \<Rightarrow> string \<Rightarrow> string" where
  "stripTokens ws s =
     (case find (\<lambda>w. w \<noteq> [] \<and> HasPrefix s w) ws of
        None \<Rightarrow> s
      | Some w \<Rightarrow> stripTokens ws (drop (length w) s))"
  by pat_completeness auto

lemma HasPrefix_length: "HasPrefix s p \<Longrightarrow> length p \<le> length s"
  by (induction s p rule: HasPrefix.induct) auto

termination stripTokens
proof (relation "measure (\<lambda>(ws, s). length s)")
  show "wf (measure (\<lambda>(ws, s). length s))" by simp
next
  fix ws :: "string list" and s w :: string
  assume "find (\<lambda>w. w \<noteq> [] \<and> HasPrefix s w) ws = Some w"
  then have "w \<noteq> []" and "HasPrefix s w"
    by (auto simp: find_Some_iff)
  then have "length w \<le> length s"
    by (auto dest: HasPrefix_length)
  with \<open>w \<noteq> []\<close> show "((ws, drop (length w) s), (ws, s)) \<in> measure (\<lambda>(ws, s). length s)"
    by (cases w) simp_all
qed

definition TrimSpace :: "string \<Rightarrow> string" where
  "TrimSpace s = rev (stripTokens (map rev whiteSpace) (rev (stripTokens whiteSpace s)))"


text \<open>\<open>%d\<close> of \<open>fmt.Sprintf\<close> on a non-negative number.\<close>

function showNat :: "nat \<Rightarrow> string" where
  "showNat n =
     (if n < 10 then [char_of (48 + n)] else showNat (n div 10) @ [char_of (48 + n mod 10)])"
  by pat_completeness auto
termination
  by (relation "measure id") auto

section \<open>The data model\<close>

record Issue =
  Path :: string
  Description :: string
  Line :: nat
  Severity :: string

record ConflictFileAnalysis =
  cf_Path :: string
  ConflictLines :: "nat list"
  ConflictBlocks :: nat
  ConflictSnippets :: "string list"
  cf_Issues :: "Issue list"

section \<open>The conflict-marker detector\<close>

text \<open>
  The body of the scanning loop of \<open>ConflictsAnalyzer.analyzeFile\<close> decides for one line
  whether \<open>isConflictMarker\<close> is set when the line's iteration ends. A line whose trimmed
  text is empty is skipped by \<open>continue\<close>.
\<close>

definition lineIsMarker :: "string \<Rightarrow> bool" where
  "lineIsMarker line =
     (let trimmed = TrimSpace line in
      if length trimmed = 0 then False
      else
        (let isConflictMarker = False;
             isConflictMarker =
               (if length trimmed \<ge> 8 \<and> take 7 trimmed = ''<<<<<<<'' \<and> trimmed ! 7 = CHR '' ''
                then (if \<not> Contains line ''/*'' \<and> \<not> Contains line ''*/'' then True
                      else isConflictMarker)
                else isConflictMarker);
             isConflictMarker =
               (if trimmed = ''======='' then True else isConflictMarker);
             isConflictMarker =
               (if length trimmed \<ge> 8 \<and> take 7 trimmed = ''>>>>>>>'' \<and> trimmed ! 7 = CHR '' ''
                then (if \<not> Contains line ''/*'' \<and> \<not> Contains line ''*/'' then True
                      else isConflictMarker)
                else isConflictMarker)
         in isConflictMarker))"

record scanState =
  lineNum :: nat
  conflictLines :: "nat list"
  conflictSnippets :: "string list"

definition scanStep :: "scanState \<Rightarrow> string \<Rightarrow> scanState" where
  "scanStep st line =
     (let st = st\<lparr>lineNum := lineNum st + 1\<rparr> in
      if lineIsMarker line
      then st\<lparr>conflictLines := conflictLines st @ [lineNum st],
              conflictSnippets :=
                (if length (conflictSnippets st) < 5
                 then conflictSnippets st @ [TrimSpace line]
                 else conflictSnippets st)\<rparr>
      else st)"

definition markerIssue :: "string \<Rightarrow> string list \<Rightarrow> nat \<times> nat \<Rightarrow> Issue" where
  "markerIssue path snippets = (\<lambda>(i, line).
     \<lparr>Path = path,
      Description =
        (if i < length snippets then ''Merge conflict marker: '' @ snippets ! i
         else ''Merge conflict marker''),
      Line = line,
      Severity = ''critical''\<rparr>)"

text \<open>
  \<open>analyzeFile\<close> reads the file through a \<open>bufio.Scanner\<close>. Its second argument is what
  the file system gives: \<open>None\<close> when \<open>os.Open\<close> fails, otherwise the lines the scanner
  delivers, in order.
\<close>

definition analyzeFile :: "string \<Rightarrow> string list option \<Rightarrow> ConflictFileAnalysis option" where
  "analyzeFile path opened =
     (case opened of
        None \<Rightarrow> None
      | Some lines \<Rightarrow>
          (let st = foldl scanStep \<lparr>lineNum = 0, conflictLines = [], conflictSnippets = []\<rparr> lines in
           if length (conflictLines st) = 0 then None
           else
             (let conflictBlocks = length (conflictLines st) div 3;
                  conflictBlocks = (if conflictBlocks = 0 then 1 else conflictBlocks)
              in Some \<lparr>cf_Path = path,
                       ConflictLines = conflictLines st,
                       ConflictBlocks = conflictBlocks,
                       ConflictSnippets = conflictSnippets st,
                       cf_Issues =
                         map (markerIssue path (conflictSnippets st))
                           (enumerate 0 (conflictLines st))\<rparr>)))"


subsection \<open>Properties of the string functions\<close>

lemma HasPrefix_iff: "HasPrefix s p \<longleftrightarrow> (\<exists>t. s = p @ t)"
  by (induction s p rule: HasPrefix.induct) auto

lemma stripTokens_fixed:
  "find (\<lambda>w. w \<noteq> [] \<and> HasPrefix (stripTokens ws s) w) ws = None"
proof (induction ws s rule: stripTokens.induct)
  case (1 ws s)
  show ?case
  proof (cases "find (\<lambda>w. w \<noteq> [] \<and> HasPrefix s w) ws")
    case None
    then show ?thesis by simp
  next
    case (Some w)
    with "1.IH" show ?thesis by simp
  qed
qed

lemma stripTokens_no_prefix:
  assumes "w \<in> set ws" and "w \<noteq> []"
  shows "\<not> HasPrefix (stripTokens ws s) w"
  using stripTokens_fixed [of ws s] assms by (auto simp: find_None_iff)

lemma TrimSpace_no_trailing_space: "TrimSpace s \<noteq> t @ '' ''"
proof
  assume eq: "TrimSpace s = t @ '' ''"
  let ?r = "stripTokens (map rev whiteSpace) (rev (stripTokens whiteSpace s))"
  have "'' '' \<in> set (map rev whiteSpace)"
    by (simp add: whiteSpace_def)
  then have "\<not> HasPrefix ?r '' ''"
    by (rule stripTokens_no_prefix) simp
  moreover from eq have "?r = '' '' @ rev t"
    by (simp add: TrimSpace_def rev_swap)
  ultimately show False
    by (simp add: HasPrefix_iff)
qed

subsection \<open>Properties of the conflict-marker detector\<close>

lemma marker_shape:
  assumes "length m = 7"
  shows "(length t \<ge> 8 \<and> take 7 t = m \<and> t ! 7 = c) \<longleftrightarrow> (\<exists>rest. t = m @ c # rest)"
proof
  assume a: "length t \<ge> 8 \<and> take 7 t = m \<and> t ! 7 = c"
  then have "drop 7 t = c # drop 8 t"
    using Cons_nth_drop_Suc [of 7 t] by simp
  with a have "t = m @ c # drop 8 t"
    using append_take_drop_id [of 7 t] by simp
  then show "\<exists>rest. t = m @ c # rest" ..
next
  assume "\<exists>rest. t = m @ c # rest"
  with assms show "length t \<ge> 8 \<and> take 7 t = m \<and> t ! 7 = c"
    by (auto simp: nth_append)
qed

lemma lineIsMarker_iff:
  "lineIsMarker line \<longleftrightarrow>
     (TrimSpace line = ''=======''
      \<or> (\<exists>rest. rest \<noteq> [] \<and>
            (TrimSpace line = ''<<<<<<< '' @ rest \<or> TrimSpace line = ''>>>>>>> '' @ rest))
        \<and> \<not> Contains line ''/*'' \<and> \<not> Contains line ''*/'')"
proof -
  define t where "t = TrimSpace line"
  have nt: "\<And>m. t \<noteq> m @ '' ''"
    unfolding t_def by (rule TrimSpace_no_trailing_space)
  have s1: "(length t \<ge> 8 \<and> take 7 t = ''<<<<<<<'' \<and> t ! 7 = CHR '' '')
      \<longleftrightarrow> (\<exists>rest. rest \<noteq> [] \<and> t = ''<<<<<<< '' @ rest)" (is "?L1 = ?R1")
  proof
    assume ?L1
    then obtain rest where r: "t = ''<<<<<<<'' @ CHR '' '' # rest"
      using marker_shape [of "''<<<<<<<''" t "CHR '' ''"] by auto
    with nt [of "''<<<<<<<''"] have "rest \<noteq> []" by auto
    with r show ?R1 by auto
  next
    assume ?R1
    then show ?L1 using marker_shape [of "''<<<<<<<''" t "CHR '' ''"] by auto
  qed
  have s2: "(length t \<ge> 8 \<and> take 7 t = ''>>>>>>>'' \<and> t ! 7 = CHR '' '')
      \<longleftrightarrow> (\<exists>rest. rest \<noteq> [] \<and> t = ''>>>>>>> '' @ rest)" (is "?L2 = ?R2")
  proof
    assume ?L2
    then obtain rest where r: "t = ''>>>>>>>'' @ CHR '' '' # rest"
      using marker_shape [of "''>>>>>>>''" t "CHR '' ''"] by auto
    with nt [of "''>>>>>>>''"] have "rest \<noteq> []" by auto
    with r show ?R2 by auto
  next
    assume ?R2
    then show ?L2 using marker_shape [of "''>>>>>>>''" t "CHR '' ''"] by auto
  qed
  have "lineIsMarker line \<longleftrightarrow>
      (t \<noteq> [] \<and> (t = ''=======''
        \<or> ((length t \<ge> 8 \<and> take 7 t = ''<<<<<<<'' \<and> t ! 7 = CHR '' '')
            \<or> (length t \<ge> 8 \<and> take 7 t = ''>>>>>>>'' \<and> t ! 7 = CHR '' ''))
          \<and> \<not> Contains line ''/*'' \<and> \<not> Contains line ''*/''))"
    unfolding lineIsMarker_def Let_def t_def [symmetric] by auto
  also have "\<dots> \<longleftrightarrow> (t = ''=======''
        \<or> ((\<exists>rest. rest \<noteq> [] \<and> t = ''<<<<<<< '' @ rest)
            \<or> (\<exists>rest. rest \<noteq> [] \<and> t = ''>>>>>>> '' @ rest))
          \<and> \<not> Contains line ''/*'' \<and> \<not> Contains line ''*/'')"
    unfolding s1 s2 by auto
  finally show ?thesis
    unfolding t_def by blast
qed

lemma scan_fold:
  "lineNum (foldl scanStep st ls) = lineNum st + length ls \<and>
   conflictLines (foldl scanStep st ls) =
     conflictLines st @ map fst (filter (\<lambda>(n, l). lineIsMarker l) (enumerate (Suc (lineNum st)) ls))"
  by (induction ls arbitrary: st) (auto simp: scanStep_def Let_def)

lemma lineIsMarker_examples:
  "\<not> lineIsMarker ''<<<<<<<HEAD''" "lineIsMarker ''<<<<<<< HEAD extra''"
  "lineIsMarker ''=======''" "\<not> lineIsMarker ''<<<<<<< HEAD /* banner''"
  "\<not> lineIsMarker ''Clean file content''"
  by code_simp+

lemma analyzeFile_lines:
  "analyzeFile path (Some ls) =
     (let ns = map fst (filter (\<lambda>(n, l). lineIsMarker l) (enumerate 1 ls));
          st = foldl scanStep \<lparr>lineNum = 0, conflictLines = [], conflictSnippets = []\<rparr> ls
      in if ns = [] then None
         else Some \<lparr>cf_Path = path, ConflictLines = ns,
                    ConflictBlocks = (if length ns div 3 = 0 then 1 else length ns div 3),
                    ConflictSnippets = conflictSnippets st,
                    cf_Issues = map (markerIssue path (conflictSnippets st)) (enumerate 0 ns)\<rparr>)"
  using scan_fold [of "\<lparr>lineNum = 0, conflictLines = [], conflictSnippets = []\<rparr>" ls]
  by (simp add: analyzeFile_def Let_def)

lemma length_marker_lines:
  "length (filter (\<lambda>(n, l). lineIsMarker l) (enumerate k ls)) = length (filter lineIsMarker ls)"
  by (induction ls arbitrary: k) auto

lemma marker_lines_empty_iff:
  "filter (\<lambda>(n, l). lineIsMarker l) (enumerate k ls) = [] \<longleftrightarrow> filter lineIsMarker ls = []"
  by (induction ls arbitrary: k) auto

lemma markerIssue_line_severity:
  "map (\<lambda>x. (Line (markerIssue path sn x), Severity (markerIssue path sn x))) (enumerate k ns) =
     map (\<lambda>n. (n, ''critical'')) ns"
  by (induction ns arbitrary: k) (simp_all add: markerIssue_def)

lemma analyzeFile_summary:
  "map_option (\<lambda>a. (ConflictLines a, ConflictBlocks a)) (analyzeFile path (Some ls)) =
     (let ns = map fst (filter (\<lambda>(n, l). lineIsMarker l) (enumerate 1 ls))
      in if ns = [] then None else Some (ns, max (length ns div 3) 1))"
  by (simp add: analyzeFile_lines Let_def max_def)

lemma scenario_markers:
  "map lineIsMarker [''Line 1'', ''<<<<<<< HEAD'', ''Our change'', ''======='',
                    ''Their change'', ''>>>>>>> feature/branch'', ''Line 5''] =
     [False, True, False, True, False, True, False]"
  by code_simp

lemma witness_markers:
  "map lineIsMarker [''<<<<<<< HEAD extra'', ''x'', ''=======''] = [True, False, True]"
  "map lineIsMarker [''x'', ''<<<<<<< HEAD extra'', ''=======''] = [False, True, True]"
  by code_simp+

text \<open>
  C4. A scanned line is flagged exactly when its trimmed text is seven equals signs, or
  when its trimmed text is seven \<open><\<close> (or seven \<open>>\<close>), one space and further text while
  the raw line contains neither \<open>/*\<close> nor \<open>*/\<close>. The line \<open><<<<<<<HEAD\<close> is not a marker,
  and a start-marker-shaped line with \<open>/*\<close> on the raw line is not flagged. The issues of
  a file are one critical issue per flagged line, carrying its 1-based line number.
\<close>

theorem C4_conflict_marker_grammar:
  "(lineIsMarker line \<longleftrightarrow>
      (TrimSpace line = ''=======''
       \<or> (\<exists>rest. rest \<noteq> [] \<and>
             (TrimSpace line = ''<<<<<<< '' @ rest \<or> TrimSpace line = ''>>>>>>> '' @ rest))
         \<and> \<not> Contains line ''/*'' \<and> \<not> Contains line ''*/''))
   \<and> (TrimSpace line = ''<<<<<<<HEAD'' \<longrightarrow> \<not> lineIsMarker line)
   \<and> (HasPrefix (TrimSpace line) ''<<<<<<< '' \<and> Contains line ''/*'' \<longrightarrow> \<not> lineIsMarker line)
   \<and> map (\<lambda>i. (Line i, Severity i))
         (case analyzeFile path (Some ls) of None \<Rightarrow> [] | Some a \<Rightarrow> cf_Issues a) =
       map (\<lambda>(n, l). (n, ''critical'')) (filter (\<lambda>(n, l). lineIsMarker l) (enumerate 1 ls))"
proof -
  have a: "TrimSpace line = ''<<<<<<<HEAD'' \<longrightarrow> \<not> lineIsMarker line"
    unfolding lineIsMarker_iff by auto
  have b: "HasPrefix (TrimSpace line) ''<<<<<<< '' \<and> Contains line ''/*'' \<longrightarrow> \<not> lineIsMarker line"
    unfolding lineIsMarker_iff by (auto simp: HasPrefix_iff)
  have c: "map (\<lambda>i. (Line i, Severity i))
         (case analyzeFile path (Some ls) of None \<Rightarrow> [] | Some a \<Rightarrow> cf_Issues a) =
       map (\<lambda>(n, l). (n, ''critical'')) (filter (\<lambda>(n, l). lineIsMarker l) (enumerate 1 ls))"
    unfolding analyzeFile_lines Let_def
    by (simp add: markerIssue_line_severity split_def comp_def)
  from lineIsMarker_iff [of line] a b c show ?thesis by blast
qed

theorem C4_conflict_marker_grammar_witness:
  "TrimSpace ''<<<<<<<HEAD'' = ''<<<<<<<HEAD'' \<and> \<not> lineIsMarker ''<<<<<<<HEAD''
   \<and> HasPrefix (TrimSpace ''<<<<<<< HEAD /* banner'') ''<<<<<<< ''
   \<and> Contains ''<<<<<<< HEAD /* banner'' ''/*'' \<and> \<not> lineIsMarker ''<<<<<<< HEAD /* banner''
   \<and> map (\<lambda>i. (Line i, Severity i))
        (case analyzeFile ''a.txt'' (Some [''x'', ''<<<<<<< HEAD extra'', ''======='']) of
           None \<Rightarrow> [] | Some a \<Rightarrow> cf_Issues a) =
       [(2, ''critical''), (3, ''critical'')]"
proof -
  have h1: "TrimSpace ''<<<<<<<HEAD'' = ''<<<<<<<HEAD''"
    by code_simp
  have h2: "HasPrefix (TrimSpace ''<<<<<<< HEAD /* banner'') ''<<<<<<< ''
      \<and> Contains ''<<<<<<< HEAD /* banner'' ''/*''"
    by code_simp
  have h3: "map (\<lambda>(n, l). (n, ''critical''))
      (filter (\<lambda>(n, l). lineIsMarker l) (enumerate 1 [''x'', ''<<<<<<< HEAD extra'', ''=======''])) =
      [(2, ''critical''), (3, ''critical'')]"
    using witness_markers by simp
  from C4_conflict_marker_grammar [of "''<<<<<<<HEAD''"] h1
  have c1: "\<not> lineIsMarker ''<<<<<<<HEAD''" by blast
  from C4_conflict_marker_grammar [of "''<<<<<<< HEAD /* banner''"] h2
  have c2: "\<not> lineIsMarker ''<<<<<<< HEAD /* banner''" by blast
  from C4_conflict_marker_grammar [of _ "''a.txt''" "[''x'', ''<<<<<<< HEAD extra'', ''======='']"] h3
  have c3: "map (\<lambda>i. (Line i, Severity i))
        (case analyzeFile ''a.txt'' (Some [''x'', ''<<<<<<< HEAD extra'', ''======='']) of
           None \<Rightarrow> [] | Some a \<Rightarrow> cf_Issues a) =
       [(2, ''critical''), (3, ''critical'')]" by metis
  from h1 h2 c1 c2 c3 show ?thesis by blast
qed

text \<open>
  C8. A file with \<open>n \<ge> 1\<close> marker lines has the block count \<open>max (n div 3) 1\<close>; a file
  with no marker line gives no finding at all; the seven-line scenario has the marker
  lines 2, 4 and 6 and the block count 1.
\<close>

theorem C8_conflict_block_count:
  "(length (filter lineIsMarker ls) = 0 \<longrightarrow> analyzeFile path (Some ls) = None)
   \<and> (length (filter lineIsMarker ls) \<ge> 1 \<longrightarrow>
        (\<exists>a. analyzeFile path (Some ls) = Some a
           \<and> length (ConflictLines a) = length (filter lineIsMarker ls)
           \<and> ConflictBlocks a = max (length (filter lineIsMarker ls) div 3) 1))
   \<and> (\<exists>a. analyzeFile path
             (Some [''Line 1'', ''<<<<<<< HEAD'', ''Our change'', ''======='',
                    ''Their change'', ''>>>>>>> feature/branch'', ''Line 5'']) = Some a
          \<and> ConflictLines a = [2, 4, 6] \<and> ConflictBlocks a = 1)"
proof -
  let ?n = "length (filter lineIsMarker ls)"
  let ?ns = "map fst (filter (\<lambda>(n, l). lineIsMarker l) (enumerate 1 ls))"
  have len: "length ?ns = ?n"
    by (simp add: length_marker_lines)
  have a: "?n = 0 \<longrightarrow> analyzeFile path (Some ls) = None"
    by (simp add: analyzeFile_lines Let_def marker_lines_empty_iff)
  have b: "?n \<ge> 1 \<longrightarrow>
        (\<exists>a. analyzeFile path (Some ls) = Some a
           \<and> length (ConflictLines a) = ?n \<and> ConflictBlocks a = max (?n div 3) 1)"
  proof
    assume "?n \<ge> 1"
    then have "filter lineIsMarker ls \<noteq> []" by auto
    then have "?ns \<noteq> []" by (simp add: marker_lines_empty_iff)
    then show "\<exists>a. analyzeFile path (Some ls) = Some a
           \<and> length (ConflictLines a) = ?n \<and> ConflictBlocks a = max (?n div 3) 1"
      using len by (simp add: analyzeFile_lines Let_def max_def)
  qed
  have c: "\<exists>a. analyzeFile path
             (Some [''Line 1'', ''<<<<<<< HEAD'', ''Our change'', ''======='',
                    ''Their change'', ''>>>>>>> feature/branch'', ''Line 5'']) = Some a
          \<and> ConflictLines a = [2, 4, 6] \<and> ConflictBlocks a = 1"
    using scenario_markers
      analyzeFile_summary [of path "[''Line 1'', ''<<<<<<< HEAD'', ''Our change'', ''======='',
                    ''Their change'', ''>>>>>>> feature/branch'', ''Line 5'']"]
    by (auto simp: Let_def)
  from a b c show ?thesis by blast
qed

theorem C8_conflict_block_count_witness:
  "length (filter lineIsMarker [''Clean file content'']) = 0
   \<and> analyzeFile ''clean.txt'' (Some [''Clean file content'']) = None
   \<and> length (filter lineIsMarker [''<<<<<<< HEAD extra'', ''x'', ''======='']) \<ge> 1
   \<and> (\<exists>a. analyzeFile ''conflict.txt'' (Some [''<<<<<<< HEAD extra'', ''x'', ''======='']) = Some a
         \<and> length (ConflictLines a) = 2 \<and> ConflictBlocks a = 1)"
proof -
  have h1: "length (filter lineIsMarker [''Clean file content'']) = 0"
    by (simp add: lineIsMarker_examples)
  have h2: "length (filter lineIsMarker [''<<<<<<< HEAD extra'', ''x'', ''======='']) = 2"
    using witness_markers by simp
  from C8_conflict_block_count [of "[''Clean file content'']" "''clean.txt''"] h1
  have c1: "analyzeFile ''clean.txt'' (Some [''Clean file content'']) = None" by blast
  from C8_conflict_block_count
    [of "[''<<<<<<< HEAD extra'', ''x'', ''======='']" "''conflict.txt''"] h2
  have c2: "\<exists>a. analyzeFile ''conflict.txt'' (Some [''<<<<<<< HEAD extra'', ''x'', ''======='']) = Some a
         \<and> length (ConflictLines a) = 2 \<and> ConflictBlocks a = 1" by simp
  from h1 h2 c1 c2 show ?thesis by simp
qed


section \<open>The catch-block rule of the PHP analyzer\<close>

text \<open>
  The rule walks the syntax tree that the PHP parser builds. The tree is modelled by the
  node kinds the rule inspects: a catch clause (its position's start line when it has a
  position, its types, its variable and its statements), an expression statement, a
  function call (the called function and the arguments), a plain name (its parts), a
  name part, and every other kind of node with its children in walking order. Fully
  qualified and relative names are other kinds of node than the plain name.
\<close>

datatype node =
    Catch "nat option" "node list" node "node list"
  | Expression node
  | FunctionCall node "node list"
  | Name "node list"
  | NamePart string
  | Other "node list"

record catchVisitor =
  issues :: "Issue list"
  missingReport :: nat
  misplacedReport :: nat

record LaravelCatchBlockFinding =
  lc_Issues :: "Issue list"
  MissingReport :: nat
  MisplacedReport :: nat

fun isReportCall :: "node \<Rightarrow> bool" where
  "isReportCall (Expression (FunctionCall (Name [NamePart v]) args)) = (v = ''report'')"
| "isReportCall _ = False"

text \<open>
  The loop of \<open>analyzeCatch\<close> over the statements stops at the first report call; it
  gives \<open>foundReport\<close> and \<open>isFirst\<close>.
\<close>

fun findReport :: "nat \<Rightarrow> node list \<Rightarrow> bool \<times> bool" where
  "findReport i [] = (False, False)"
| "findReport i (s # stmts) =
     (if isReportCall s then (True, i = 0) else findReport (Suc i) stmts)"

definition analyzeCatch :: "nat option \<Rightarrow> node list \<Rightarrow> catchVisitor \<Rightarrow> catchVisitor" where
  "analyzeCatch position stmts v =
     (let (foundReport, isFirst) = findReport 0 stmts;
          startLine = (case position of None \<Rightarrow> 0 | Some l \<Rightarrow> l)
      in if \<not> foundReport
         then v\<lparr>missingReport := missingReport v + 1,
                issues := issues v @
                  [\<lparr>Path = [],
                    Description = ''Critical: Catch block missing report() call in Laravel app file'',
                    Line = startLine, Severity = ''critical''\<rparr>]\<rparr>
         else if \<not> isFirst
         then v\<lparr>misplacedReport := misplacedReport v + 1,
                issues := issues v @
                  [\<lparr>Path = [],
                    Description = ''Medium Risk: report() call is not the first statement in catch block'',
                    Line = startLine, Severity = ''medium''\<rparr>]\<rparr>
         else v)"

text \<open>
  \<open>root.Walk(v)\<close> enters every node before its children; \<open>EnterNode\<close> analyses a catch
  clause and always asks for the children to be walked.
\<close>

fun walk :: "node \<Rightarrow> catchVisitor \<Rightarrow> catchVisitor"
  and walkList :: "node list \<Rightarrow> catchVisitor \<Rightarrow> catchVisitor" where
  "walk (Catch position types variable stmts) v =
     walkList stmts (walk variable (walkList types (analyzeCatch position stmts v)))"
| "walk (Expression e) v = walk e v"
| "walk (FunctionCall f args) v = walkList args (walk f v)"
| "walk (Name parts) v = walkList parts v"
| "walk (NamePart s) v = v"
| "walk (Other children) v = walkList children v"
| "walkList [] v = v"
| "walkList (n # ns) v = walkList ns (walk n v)"

text \<open>
  \<open>LaravelCatchBlockRule.Apply\<close>; the parser is a parameter, \<open>None\<close> when it gives no
  root node.
\<close>

definition lcb_Apply :: "(string \<Rightarrow> node option) \<Rightarrow> string \<Rightarrow> LaravelCatchBlockFinding option" where
  "lcb_Apply parse content =
     (case parse content of
        None \<Rightarrow> None
      | Some rootNode \<Rightarrow>
          (let v = walk rootNode \<lparr>issues = [], missingReport = 0, misplacedReport = 0\<rparr> in
           if length (issues v) = 0 then None
           else Some \<lparr>lc_Issues = issues v, MissingReport = missingReport v,
                      MisplacedReport = misplacedReport v\<rparr>))"

text \<open>
  For the statements below: the issues one catch clause adds, and the catch clauses of a
  tree in walking order.
\<close>

definition clauseIssues :: "nat option \<Rightarrow> node list \<Rightarrow> Issue list" where
  "clauseIssues position stmts =
     issues (analyzeCatch position stmts \<lparr>issues = [], missingReport = 0, misplacedReport = 0\<rparr>)"

fun catchClauses :: "node \<Rightarrow> (nat option \<times> node list) list"
  and catchClausesList :: "node list \<Rightarrow> (nat option \<times> node list) list" where
  "catchClauses (Catch position types variable stmts) =
     (position, stmts) # catchClausesList types @ catchClauses variable @ catchClausesList stmts"
| "catchClauses (Expression e) = catchClauses e"
| "catchClauses (FunctionCall f args) = catchClauses f @ catchClausesList args"
| "catchClauses (Name parts) = catchClausesList parts"
| "catchClauses (NamePart s) = []"
| "catchClauses (Other children) = catchClausesList children"
| "catchClausesList [] = []"
| "catchClausesList (n # ns) = catchClauses n @ catchClausesList ns"


text \<open>
  Syntax trees for the examples: the statements \<open>report($e);\<close> and \<open>\Log::error($e);\<close>,
  and a file with the two clauses \<open>catch (A $e) { report($e); }\<close> on line 5 and
  \<open>catch (B $e) {}\<close> on line 6.
\<close>

definition reportCall :: node where
  "reportCall = Expression (FunctionCall (Name [NamePart ''report'']) [Other []])"

definition logCall :: node where
  "logCall = Expression (FunctionCall (Other [Name [NamePart ''Log''], Other []]) [Other []])"

definition twoCatchFile :: node where
  "twoCatchFile =
     Other [Other [Other [Other
       [Other [],
        Catch (Some 5) [Name [NamePart ''A'']] (Other []) [reportCall],
        Catch (Some 6) [Name [NamePart ''B'']] (Other []) []]]]]"

subsection \<open>Properties of the catch-block rule\<close>

lemma findReport_none: "(\<forall>s\<in>set ss. \<not> isReportCall s) \<Longrightarrow> findReport i ss = (False, False)"
  by (induction ss arbitrary: i) auto

lemma findReport_later:
  "\<exists>s\<in>set ss. isReportCall s \<Longrightarrow> findReport (Suc i) ss = (True, False)"
  by (induction ss arbitrary: i) auto

lemma analyzeCatch_issues:
  "issues (analyzeCatch p ss v) = issues v @ clauseIssues p ss"
  by (simp add: analyzeCatch_def clauseIssues_def Let_def split: prod.splits)

lemma walk_issues:
  "issues (walk n v) = issues v @ concat (map (\<lambda>(p, ss). clauseIssues p ss) (catchClauses n))"
  "issues (walkList ns v) = issues v @ concat (map (\<lambda>(p, ss). clauseIssues p ss) (catchClausesList ns))"
  by (induction n v and ns v rule: walk_walkList.induct) (simp_all add: analyzeCatch_issues)

lemma clauseIssues_length: "length (clauseIssues p ss) \<le> Suc 0"
  by (simp add: clauseIssues_def analyzeCatch_def Let_def split: prod.splits)

lemma concat_length_le:
  assumes "\<And>x. x \<in> set xs \<Longrightarrow> length (f x) \<le> 1"
  shows "length (concat (map f xs)) \<le> length xs"
  using assms
proof (induction xs)
  case Nil
  then show ?case by simp
next
  case (Cons a xs)
  have "length (f a) \<le> 1" using Cons.prems by simp
  moreover have "length (concat (map f xs)) \<le> length xs"
    using Cons by simp
  ultimately show ?case by simp
qed

text \<open>
  C2. A catch clause with no report call among its statements gives exactly one
  critical issue at the clause's start line; a clause whose first statement is not a
  report call but which has one later gives exactly one medium issue at that line; a
  clause whose first statement is a report call gives no issue. The issues of a file
  are those of its catch clauses, in walking order, so at most one per clause, and the
  rule returns nothing exactly when no clause gave an issue.
\<close>

theorem C2_catch_block_rule:
  "((\<forall>s\<in>set stmts. \<not> isReportCall s) \<longrightarrow>
      clauseIssues position stmts =
        [\<lparr>Path = [], Description = ''Critical: Catch block missing report() call in Laravel app file'',
          Line = (case position of None \<Rightarrow> 0 | Some l \<Rightarrow> l), Severity = ''critical''\<rparr>])
   \<and> (\<not> isReportCall s \<and> (\<exists>t\<in>set rest. isReportCall t) \<longrightarrow>
      clauseIssues position (s # rest) =
        [\<lparr>Path = [], Description = ''Medium Risk: report() call is not the first statement in catch block'',
          Line = (case position of None \<Rightarrow> 0 | Some l \<Rightarrow> l), Severity = ''medium''\<rparr>])
   \<and> (isReportCall s \<longrightarrow> clauseIssues position (s # rest) = [])
   \<and> (case lcb_Apply parse content of
         None \<Rightarrow>
           (case parse content of
              None \<Rightarrow> True
            | Some rootNode \<Rightarrow> \<forall>(p, ss)\<in>set (catchClauses rootNode). clauseIssues p ss = [])
       | Some finding \<Rightarrow>
           (\<exists>rootNode. parse content = Some rootNode
              \<and> lc_Issues finding = concat (map (\<lambda>(p, ss). clauseIssues p ss) (catchClauses rootNode))
              \<and> lc_Issues finding \<noteq> []
              \<and> length (lc_Issues finding) \<le> length (catchClauses rootNode)))"
proof -
  have a: "(\<forall>s\<in>set stmts. \<not> isReportCall s) \<longrightarrow>
      clauseIssues position stmts =
        [\<lparr>Path = [], Description = ''Critical: Catch block missing report() call in Laravel app file'',
          Line = (case position of None \<Rightarrow> 0 | Some l \<Rightarrow> l), Severity = ''critical''\<rparr>]"
    by (simp add: clauseIssues_def analyzeCatch_def findReport_none)
  have b: "\<not> isReportCall s \<and> (\<exists>t\<in>set rest. isReportCall t) \<longrightarrow>
      clauseIssues position (s # rest) =
        [\<lparr>Path = [], Description = ''Medium Risk: report() call is not the first statement in catch block'',
          Line = (case position of None \<Rightarrow> 0 | Some l \<Rightarrow> l), Severity = ''medium''\<rparr>]"
    by (simp add: clauseIssues_def analyzeCatch_def findReport_later)
  have c: "isReportCall s \<longrightarrow> clauseIssues position (s # rest) = []"
    by (simp add: clauseIssues_def analyzeCatch_def)
  have d: "case lcb_Apply parse content of
         None \<Rightarrow>
           (case parse content of
              None \<Rightarrow> True
            | Some rootNode \<Rightarrow> \<forall>(p, ss)\<in>set (catchClauses rootNode). clauseIssues p ss = [])
       | Some finding \<Rightarrow>
           (\<exists>rootNode. parse content = Some rootNode
              \<and> lc_Issues finding = concat (map (\<lambda>(p, ss). clauseIssues p ss) (catchClauses rootNode))
              \<and> lc_Issues finding \<noteq> []
              \<and> length (lc_Issues finding) \<le> length (catchClauses rootNode))"
  proof (cases "parse content")
    case None
    then show ?thesis by (simp add: lcb_Apply_def)
  next
    case (Some rootNode)
    have len: "length (concat (map (\<lambda>(p, ss). clauseIssues p ss) (catchClauses rootNode)))
        \<le> length (catchClauses rootNode)"
    proof (rule concat_length_le)
      fix x :: "nat option \<times> node list"
      show "length (case x of (p, ss) \<Rightarrow> clauseIssues p ss) \<le> 1"
        by (cases x) (simp add: clauseIssues_length)
    qed
    from Some len show ?thesis
      by (auto simp: lcb_Apply_def Let_def walk_issues)
  qed
  from a b c d show ?thesis by blast
qed

theorem C2_catch_block_rule_witness:
  "\<not> isReportCall logCall \<and> isReportCall reportCall
   \<and> clauseIssues (Some 8) [logCall] =
        [\<lparr>Path = [], Description = ''Critical: Catch block missing report() call in Laravel app file'',
          Line = 8, Severity = ''critical''\<rparr>]
   \<and> clauseIssues (Some 8) [logCall, reportCall] =
        [\<lparr>Path = [], Description = ''Medium Risk: report() call is not the first statement in catch block'',
          Line = 8, Severity = ''medium''\<rparr>]
   \<and> clauseIssues (Some 8) [reportCall, logCall] = []
   \<and> lcb_Apply (\<lambda>c. Some (Other [Catch (Some 5) [] (Other []) [reportCall]])) ''<?php'' = None
   \<and> (\<exists>f. lcb_Apply (\<lambda>c. Some twoCatchFile) ''<?php'' = Some f \<and> map Line (lc_Issues f) = [6])"
proof -
  have h1: "\<not> isReportCall logCall" and h2: "isReportCall reportCall"
    by (simp_all add: logCall_def reportCall_def)
  from h1 have h3: "\<forall>s\<in>set [logCall]. \<not> isReportCall s" by simp
  from h2 have h4: "\<exists>t\<in>set [reportCall]. isReportCall t" by simp
  from C2_catch_block_rule [of "[logCall]" "Some 8"] h3
  have c1: "clauseIssues (Some 8) [logCall] =
        [\<lparr>Path = [], Description = ''Critical: Catch block missing report() call in Laravel app file'',
          Line = 8, Severity = ''critical''\<rparr>]" by simp
  from C2_catch_block_rule [of _ "Some 8" logCall "[reportCall]"] h1 h4
  have c2: "clauseIssues (Some 8) [logCall, reportCall] =
        [\<lparr>Path = [], Description = ''Medium Risk: report() call is not the first statement in catch block'',
          Line = 8, Severity = ''medium''\<rparr>]" by simp
  from C2_catch_block_rule [of _ "Some 8" reportCall "[logCall]"] h2
  have c3: "clauseIssues (Some 8) [reportCall, logCall] = []" by simp
  have h5: "lcb_Apply (\<lambda>c. Some (Other [Catch (Some 5) [] (Other []) [reportCall]])) ''<?php'' = None"
    by (simp add: lcb_Apply_def analyzeCatch_def reportCall_def)
  have h6: "\<not> (\<forall>(p, ss)\<in>set (catchClauses twoCatchFile). clauseIssues p ss = [])"
    by (simp add: twoCatchFile_def clauseIssues_def analyzeCatch_def reportCall_def)
  have h7: "map Line (concat (map (\<lambda>(p, ss). clauseIssues p ss) (catchClauses twoCatchFile))) = [6]"
    by (simp add: twoCatchFile_def clauseIssues_def analyzeCatch_def reportCall_def)
  from C2_catch_block_rule [of _ _ _ _ "\<lambda>c. Some twoCatchFile" "''<?php''"] h6
  have "\<exists>f. lcb_Apply (\<lambda>c. Some twoCatchFile) ''<?php'' = Some f
      \<and> lc_Issues f = concat (map (\<lambda>(p, ss). clauseIssues p ss) (catchClauses twoCatchFile))"
    by (cases "lcb_Apply (\<lambda>c. Some twoCatchFile) ''<?php''") auto
  with h7 have c4: "\<exists>f. lcb_Apply (\<lambda>c. Some twoCatchFile) ''<?php'' = Some f
      \<and> map Line (lc_Issues f) = [6]" by auto
  from h1 h2 c1 c2 c3 h5 c4 show ?thesis by blast
qed


section \<open>Analyzer orchestration: threshold, ranking, truncation\<close>

text \<open>
  \<open>Run\<close> walks the tree and calls \<open>analyzeFile\<close> on every eligible file. The walk is
  modelled by its outcome: the list, in walk order, of what \<open>analyzeFile\<close> returned for
  the eligible files. A \<open>float64\<close> ratio is modelled by the real number it denotes; the
  code compares ratios and never computes with them after \<open>analyzeFile\<close>.

  The results are sorted by \<open>sort.Slice\<close> of the Go library. Its documentation promises
  a sorted permutation and explicitly no stability, and it demands of \<open>less\<close> a strict weak
  order. The sorting function is a parameter of \<open>Run\<close>, constrained by this contract;
  the last section models the implementation of \<open>sort.Slice\<close> itself.
  \<open>results[:config.TopN]\<close> panics when \<open>TopN\<close> is negative.
\<close>

record Config =
  RootDir :: string
  TopN :: int
  MinValue :: int
  MinRatio :: real
  SortBy :: string
  OutputFile :: string
  ExcludePaths :: "string list"

record JSFileAnalysis =
  js_Path :: string
  js_TotalLines :: nat
  js_CommentedLines :: nat
  js_CommentedBytes :: nat
  js_TotalBytes :: nat
  js_CommentRatio :: real
  js_LargestBlock :: nat
  js_Issues :: "Issue list"

datatype error = SliceBoundsOutOfRange

type_synonym 'a sliceSort = "('a \<Rightarrow> 'a \<Rightarrow> bool) \<Rightarrow> 'a list \<Rightarrow> 'a list"

definition strictWeakOrder :: "('a \<Rightarrow> 'a \<Rightarrow> bool) \<Rightarrow> bool" where
  "strictWeakOrder lessf =
     ((\<forall>a b. lessf a b \<longrightarrow> \<not> lessf b a) \<and> (\<forall>a b c. \<not> lessf a b \<and> \<not> lessf b c \<longrightarrow> \<not> lessf a c))"

definition sliceSortContract :: "'a sliceSort \<Rightarrow> bool" where
  "sliceSortContract srt =
     (\<forall>lessf xs. mset (srt lessf xs) = mset xs
        \<and> (strictWeakOrder lessf \<longrightarrow> sorted_wrt (\<lambda>a b. \<not> lessf b a) (srt lessf xs)))"

text \<open>A sorting function that meets the contract: insertion sort.\<close>

fun insertSorted :: "('a \<Rightarrow> 'a \<Rightarrow> bool) \<Rightarrow> 'a \<Rightarrow> 'a list \<Rightarrow> 'a list" where
  "insertSorted lessf x [] = [x]"
| "insertSorted lessf x (y # ys) =
     (if lessf x y then x # y # ys else y # insertSorted lessf x ys)"

definition insertionSort :: "'a sliceSort" where
  "insertionSort lessf xs = foldl (\<lambda>acc x. insertSorted lessf x acc) [] xs"

definition js_visit ::
  "Config \<Rightarrow> JSFileAnalysis list \<times> Issue list \<Rightarrow> JSFileAnalysis option \<Rightarrow> JSFileAnalysis list \<times> Issue list" where
  "js_visit config = (\<lambda>(results, allIssues) analysis.
     (case analysis of
        None \<Rightarrow> (results, allIssues)
      | Some a \<Rightarrow>
          if int (js_CommentedBytes a) < MinValue config then (results, allIssues)
          else if MinRatio config > 0 \<and> js_CommentRatio a < MinRatio config then (results, allIssues)
          else (results @ [a], allIssues @ js_Issues a)))"

definition JSAnalyzer_Run ::
  "JSFileAnalysis sliceSort \<Rightarrow> Config \<Rightarrow> JSFileAnalysis option list \<Rightarrow>
     error + (JSFileAnalysis list \<times> Issue list)" where
  "JSAnalyzer_Run sortSlice config analyses =
     (let (results, allIssues) = foldl (js_visit config) ([], []) analyses;
          results =
            (if SortBy config = ''ratio''
             then sortSlice (\<lambda>ri rj. js_CommentRatio ri > js_CommentRatio rj) results
             else sortSlice (\<lambda>ri rj. js_CommentedBytes ri > js_CommentedBytes rj) results)
      in if int (length results) > TopN config
         then (if TopN config < 0 then Inl SliceBoundsOutOfRange
               else Inr (take (nat (TopN config)) results, allIssues))
         else Inr (results, allIssues))"

record HTMLFileAnalysis =
  html_Path :: string
  html_TotalLines :: nat
  html_CommentedLines :: nat
  html_CommentedBytes :: nat
  html_TotalBytes :: nat
  html_CommentRatio :: real
  html_LargestBlock :: nat
  html_Issues :: "Issue list"

definition html_visit ::
  "Config \<Rightarrow> HTMLFileAnalysis list \<times> Issue list \<Rightarrow> HTMLFileAnalysis option \<Rightarrow> HTMLFileAnalysis list \<times> Issue list" where
  "html_visit config = (\<lambda>(results, allIssues) analysis.
     (case analysis of
        None \<Rightarrow> (results, allIssues)
      | Some a \<Rightarrow>
          if int (html_CommentedBytes a) < MinValue config then (results, allIssues)
          else if MinRatio config > 0 \<and> html_CommentRatio a < MinRatio config then (results, allIssues)
          else (results @ [a], allIssues @ html_Issues a)))"

definition HTMLAnalyzer_Run ::
  "HTMLFileAnalysis sliceSort \<Rightarrow> Config \<Rightarrow> HTMLFileAnalysis option list \<Rightarrow>
     error + (HTMLFileAnalysis list \<times> Issue list)" where
  "HTMLAnalyzer_Run sortSlice config analyses =
     (let (results, allIssues) = foldl (html_visit config) ([], []) analyses;
          results =
            (if SortBy config = ''ratio''
             then sortSlice (\<lambda>ri rj. html_CommentRatio ri > html_CommentRatio rj) results
             else sortSlice (\<lambda>ri rj. html_CommentedBytes ri > html_CommentedBytes rj) results)
      in if int (length results) > TopN config
         then (if TopN config < 0 then Inl SliceBoundsOutOfRange
               else Inr (take (nat (TopN config)) results, allIssues))
         else Inr (results, allIssues))"

definition conflicts_visit ::
  "Config \<Rightarrow> ConflictFileAnalysis list \<times> Issue list \<Rightarrow> ConflictFileAnalysis option \<Rightarrow>
     ConflictFileAnalysis list \<times> Issue list" where
  "conflicts_visit config = (\<lambda>(results, allIssues) analysis.
     (case analysis of
        None \<Rightarrow> (results, allIssues)
      | Some a \<Rightarrow>
          if int (length (ConflictLines a)) \<ge> MinValue config
          then (results @ [a], allIssues @ cf_Issues a)
          else (results, allIssues)))"

definition ConflictsAnalyzer_Run ::
  "ConflictFileAnalysis sliceSort \<Rightarrow> Config \<Rightarrow> ConflictFileAnalysis option list \<Rightarrow>
     error + (ConflictFileAnalysis list \<times> Issue list)" where
  "ConflictsAnalyzer_Run sortSlice config analyses =
     (let (results, allIssues) = foldl (conflicts_visit config) ([], []) analyses;
          results =
            sortSlice (\<lambda>ri rj. length (ConflictLines ri) > length (ConflictLines rj)) results
      in if int (length results) > TopN config
         then (if TopN config < 0 then Inl SliceBoundsOutOfRange
               else Inr (take (nat (TopN config)) results, allIssues))
         else Inr (results, allIssues))"

record PHPFileAnalysis =
  php_Path :: string
  TotalFunctions :: nat
  CommentedFunctions :: nat
  FunctionList :: "string list"
  CommentedList :: "string list"
  php_CommentRatio :: real
  php_TotalBytes :: nat
  php_CommentedBytes :: nat
  php_Issues :: "Issue list"
  CatchBlocksMissingReport :: nat
  CatchBlocksMisplacedReport :: nat

record phpWalk =
  results :: "PHPFileAnalysis list"
  totalFunctions :: nat
  totalCommented :: nat
  allIssues :: "Issue list"

definition php_visit :: "Config \<Rightarrow> phpWalk \<Rightarrow> PHPFileAnalysis option \<Rightarrow> phpWalk" where
  "php_visit config w analysis =
     (case analysis of
        None \<Rightarrow> w
      | Some a \<Rightarrow>
          if int (CommentedFunctions a) < MinValue config \<and> length (php_Issues a) = 0 then w
          else if MinRatio config > 0 \<and> php_CommentRatio a < MinRatio config
                  \<and> length (php_Issues a) = 0 then w
          else w\<lparr>results := results w @ [a],
                 totalFunctions := totalFunctions w + TotalFunctions a,
                 totalCommented := totalCommented w + CommentedFunctions a,
                 allIssues := allIssues w @ php_Issues a\<rparr>)"

definition PHPAnalyzer_Run ::
  "PHPFileAnalysis sliceSort \<Rightarrow> Config \<Rightarrow> PHPFileAnalysis option list \<Rightarrow>
     error + (PHPFileAnalysis list \<times> Issue list)" where
  "PHPAnalyzer_Run sortSlice config analyses =
     (let w = foldl (php_visit config)
                \<lparr>results = [], totalFunctions = 0, totalCommented = 0, allIssues = []\<rparr> analyses;
          results =
            (if SortBy config = ''ratio''
             then sortSlice (\<lambda>ri rj. php_CommentRatio ri > php_CommentRatio rj) (results w)
             else sortSlice (\<lambda>ri rj. CommentedFunctions ri > CommentedFunctions rj) (results w))
      in if int (length results) > TopN config
         then (if TopN config < 0 then Inl SliceBoundsOutOfRange
               else Inr (take (nat (TopN config)) results, allIssues w))
         else Inr (results, allIssues w))"

text \<open>
  For the statements below: the files a run retains, in walk order, and the configured
  sort key of a file.
\<close>

definition js_retained :: "Config \<Rightarrow> JSFileAnalysis option list \<Rightarrow> JSFileAnalysis list" where
  "js_retained config analyses = fst (foldl (js_visit config) ([], []) analyses)"

definition php_retained :: "Config \<Rightarrow> PHPFileAnalysis option list \<Rightarrow> PHPFileAnalysis list" where
  "php_retained config analyses =
     results (foldl (php_visit config)
       \<lparr>results = [], totalFunctions = 0, totalCommented = 0, allIssues = []\<rparr> analyses)"

definition html_retained :: "Config \<Rightarrow> HTMLFileAnalysis option list \<Rightarrow> HTMLFileAnalysis list" where
  "html_retained config analyses = fst (foldl (html_visit config) ([], []) analyses)"

definition conflicts_retained ::
  "Config \<Rightarrow> ConflictFileAnalysis option list \<Rightarrow> ConflictFileAnalysis list" where
  "conflicts_retained config analyses = fst (foldl (conflicts_visit config) ([], []) analyses)"

definition js_sortKey :: "Config \<Rightarrow> JSFileAnalysis \<Rightarrow> real" where
  "js_sortKey config a =
     (if SortBy config = ''ratio'' then js_CommentRatio a else real (js_CommentedBytes a))"

definition php_sortKey :: "Config \<Rightarrow> PHPFileAnalysis \<Rightarrow> real" where
  "php_sortKey config a =
     (if SortBy config = ''ratio'' then php_CommentRatio a else real (CommentedFunctions a))"

definition html_sortKey :: "Config \<Rightarrow> HTMLFileAnalysis \<Rightarrow> real" where
  "html_sortKey config a =
     (if SortBy config = ''ratio'' then html_CommentRatio a else real (html_CommentedBytes a))"

definition conflicts_sortKey :: "ConflictFileAnalysis \<Rightarrow> real" where
  "conflicts_sortKey a = real (length (ConflictLines a))"

text \<open>
  What every run is shown to end with: the first \<open>n\<close> files of a permutation of the
  retained files that is in descending order of the key.
\<close>

definition rankedBy :: "('a \<Rightarrow> real) \<Rightarrow> int \<Rightarrow> 'a list \<Rightarrow> 'a list \<Rightarrow> bool" where
  "rankedBy key n retained ranked =
     (\<exists>sorted. ranked = take (nat n) sorted \<and> mset sorted = mset retained
        \<and> sorted_wrt (\<lambda>a b. key a \<ge> key b) sorted
        \<and> sorted_wrt (\<lambda>a b. key a \<ge> key b) ranked)"

text \<open>
  The ranking as the specification words it: the stable sort by descending key, cut to
  the first \<open>n\<close> files.
\<close>

definition spec_stableRanking :: "('a \<Rightarrow> real) \<Rightarrow> int \<Rightarrow> 'a list \<Rightarrow> 'a list" where
  "spec_stableRanking key n xs = take (nat n) (sort_key (\<lambda>a. - key a) xs)"

text \<open>Example inputs: a configuration and two JS files with the same ratio.\<close>

definition exampleConfig :: Config where
  "exampleConfig =
     \<lparr>RootDir = ''.'', TopN = 100, MinValue = 1, MinRatio = 0, SortBy = ''ratio'',
      OutputFile = [], ExcludePaths = []\<rparr>"

definition jsFileA :: JSFileAnalysis where
  "jsFileA =
     \<lparr>js_Path = ''a.js'', js_TotalLines = 1, js_CommentedLines = 1, js_CommentedBytes = 10,
      js_TotalBytes = 20, js_CommentRatio = 50, js_LargestBlock = 10,
      js_Issues = [\<lparr>Path = ''a.js'', Description = ''Commented out JS code block (10 bytes)'',
                    Line = 1, Severity = ''minor''\<rparr>]\<rparr>"

definition jsFileB :: JSFileAnalysis where
  "jsFileB =
     \<lparr>js_Path = ''b.js'', js_TotalLines = 1, js_CommentedLines = 1, js_CommentedBytes = 10,
      js_TotalBytes = 20, js_CommentRatio = 50, js_LargestBlock = 10,
      js_Issues = [\<lparr>Path = ''b.js'', Description = ''Commented out JS code block (10 bytes)'',
                    Line = 1, Severity = ''minor''\<rparr>]\<rparr>"

subsection \<open>Properties of the ranking\<close>

lemma mset_insertSorted: "mset (insertSorted lessf x ys) = add_mset x (mset ys)"
  by (induction ys) auto

lemma set_insertSorted: "set (insertSorted lessf x ys) = insert x (set ys)"
  by (induction ys) auto

lemma sorted_insertSorted:
  assumes "strictWeakOrder lessf" and "sorted_wrt (\<lambda>a b. \<not> lessf b a) ys"
  shows "sorted_wrt (\<lambda>a b. \<not> lessf b a) (insertSorted lessf x ys)"
  using assms(2)
proof (induction ys)
  case Nil
  then show ?case by simp
next
  case (Cons y ys)
  from assms(1) have asym: "\<And>a b. lessf a b \<Longrightarrow> \<not> lessf b a"
    and ntr: "\<And>a b c. \<not> lessf a b \<Longrightarrow> \<not> lessf b c \<Longrightarrow> \<not> lessf a c"
    unfolding strictWeakOrder_def by blast+
  show ?case
  proof (cases "lessf x y")
    case True
    then have "\<not> lessf y x" by (rule asym)
    moreover have "\<forall>z\<in>set ys. \<not> lessf z x"
      using Cons.prems \<open>\<not> lessf y x\<close> ntr by auto
    ultimately show ?thesis using True Cons.prems by simp
  next
    case False
    then show ?thesis using Cons by (auto simp: set_insertSorted)
  qed
qed

lemma insertionSort_fold:
  "mset (foldl (\<lambda>acc x. insertSorted lessf x acc) acc xs) = mset acc + mset xs"
  by (induction xs arbitrary: acc) (auto simp: mset_insertSorted)

lemma insertionSort_sorted_fold:
  "strictWeakOrder lessf \<Longrightarrow> sorted_wrt (\<lambda>a b. \<not> lessf b a) acc \<Longrightarrow>
   sorted_wrt (\<lambda>a b. \<not> lessf b a) (foldl (\<lambda>acc x. insertSorted lessf x acc) acc xs)"
  by (induction xs arbitrary: acc) (auto simp: sorted_insertSorted)

lemma insertionSort_contract: "sliceSortContract insertionSort"
  unfolding sliceSortContract_def insertionSort_def
  by (auto simp: insertionSort_fold insertionSort_sorted_fold)

lemma strictWeakOrder_key: "strictWeakOrder (\<lambda>a b. (key a :: 'k :: linorder) > key b)"
  unfolding strictWeakOrder_def by auto


lemma js_run_shape:
  "JSAnalyzer_Run srt config analyses =
     (let rs = srt (\<lambda>ri rj. js_sortKey config ri > js_sortKey config rj) (js_retained config analyses);
          iss = snd (foldl (js_visit config) ([], []) analyses)
      in if int (length rs) > TopN config
         then (if TopN config < 0 then Inl SliceBoundsOutOfRange
               else Inr (take (nat (TopN config)) rs, iss))
         else Inr (rs, iss))"
  by (simp add: JSAnalyzer_Run_def js_retained_def js_sortKey_def Let_def split_def)

lemma php_run_shape:
  "PHPAnalyzer_Run srt config analyses =
     (let rs = srt (\<lambda>ri rj. php_sortKey config ri > php_sortKey config rj) (php_retained config analyses);
          iss = allIssues (foldl (php_visit config)
             \<lparr>results = [], totalFunctions = 0, totalCommented = 0, allIssues = []\<rparr> analyses)
      in if int (length rs) > TopN config
         then (if TopN config < 0 then Inl SliceBoundsOutOfRange
               else Inr (take (nat (TopN config)) rs, iss))
         else Inr (rs, iss))"
  by (simp add: PHPAnalyzer_Run_def php_retained_def php_sortKey_def Let_def)

lemma html_run_shape:
  "HTMLAnalyzer_Run srt config analyses =
     (let rs = srt (\<lambda>ri rj. html_sortKey config ri > html_sortKey config rj) (html_retained config analyses);
          iss = snd (foldl (html_visit config) ([], []) analyses)
      in if int (length rs) > TopN config
         then (if TopN config < 0 then Inl SliceBoundsOutOfRange
               else Inr (take (nat (TopN config)) rs, iss))
         else Inr (rs, iss))"
  by (simp add: HTMLAnalyzer_Run_def html_retained_def html_sortKey_def Let_def split_def)

lemma conflicts_run_shape:
  "ConflictsAnalyzer_Run srt config analyses =
     (let rs = srt (\<lambda>ri rj. conflicts_sortKey ri > conflicts_sortKey rj) (conflicts_retained config analyses);
          iss = snd (foldl (conflicts_visit config) ([], []) analyses)
      in if int (length rs) > TopN config
         then (if TopN config < 0 then Inl SliceBoundsOutOfRange
               else Inr (take (nat (TopN config)) rs, iss))
         else Inr (rs, iss))"
  by (simp add: ConflictsAnalyzer_Run_def conflicts_retained_def conflicts_sortKey_def Let_def split_def)

lemma ranked_by_contract:
  assumes "sliceSortContract srt"
  shows "mset (srt (\<lambda>ri rj. (key ri :: real) > key rj) xs) = mset xs
     \<and> sorted_wrt (\<lambda>a b. key a \<ge> key b) (srt (\<lambda>ri rj. key ri > key rj) xs)"
proof -
  have "sorted_wrt (\<lambda>a b. \<not> key b > key a) (srt (\<lambda>ri rj. key ri > key rj) xs)"
    using assms strictWeakOrder_key [of key] unfolding sliceSortContract_def by blast
  then have "sorted_wrt (\<lambda>a b. key a \<ge> key b) (srt (\<lambda>ri rj. key ri > key rj) xs)"
    by (simp add: not_less)
  with assms show ?thesis unfolding sliceSortContract_def by blast
qed

lemma rankedBy_contract:
  assumes "sliceSortContract srt"
  shows "rankedBy key n xs (take (nat n) (srt (\<lambda>ri rj. key ri > key rj) xs))"
  unfolding rankedBy_def
  using ranked_by_contract [OF assms, of key xs] sorted_wrt_take by blast

lemma truncate_take:
  "0 \<le> n \<Longrightarrow> (if int (length rs) > n then take (nat n) rs else rs) = take (nat n) rs"
  by auto

text \<open>
  C1, as amended. With any sorting function that meets the contract of \<open>sort.Slice\<close> and
  a non-negative top-N, every analyzer ends with the first N files of a permutation of the
  retained files that is in descending order of its key: for the HTML, PHP and JS
  analyzers the ratio when the sort mode is \<open>ratio\<close> and the byte or function count
  otherwise, for the conflicts analyzer the number of marker lines in every sort mode. The
  truncated list is a prefix of the sorted one, hence in the same order.
\<close>

theorem C1_ranking:
  "sliceSortContract sortHTML \<Longrightarrow> sliceSortContract sortPHP \<Longrightarrow> sliceSortContract sortJS \<Longrightarrow>
   sliceSortContract sortConflicts \<Longrightarrow> 0 \<le> TopN config \<Longrightarrow>
   (\<exists>ranked issues. HTMLAnalyzer_Run sortHTML config htmlFiles = Inr (ranked, issues)
      \<and> rankedBy (html_sortKey config) (TopN config) (html_retained config htmlFiles) ranked)
   \<and> (\<exists>ranked issues. PHPAnalyzer_Run sortPHP config phpFiles = Inr (ranked, issues)
      \<and> rankedBy (php_sortKey config) (TopN config) (php_retained config phpFiles) ranked)
   \<and> (\<exists>ranked issues. JSAnalyzer_Run sortJS config jsFiles = Inr (ranked, issues)
      \<and> rankedBy (js_sortKey config) (TopN config) (js_retained config jsFiles) ranked)
   \<and> (\<exists>ranked issues. ConflictsAnalyzer_Run sortConflicts config conflictFiles = Inr (ranked, issues)
      \<and> rankedBy conflicts_sortKey (TopN config) (conflicts_retained config conflictFiles) ranked)"
proof -
  assume h: "sliceSortContract sortHTML" and p: "sliceSortContract sortPHP"
    and j: "sliceSortContract sortJS" and c: "sliceSortContract sortConflicts"
    and n: "0 \<le> TopN config"
  have hr: "\<exists>ranked issues. HTMLAnalyzer_Run sortHTML config htmlFiles = Inr (ranked, issues)
      \<and> rankedBy (html_sortKey config) (TopN config) (html_retained config htmlFiles) ranked"
    using n rankedBy_contract [OF h, of "html_sortKey config" "TopN config" "html_retained config htmlFiles"]
    by (auto simp: html_run_shape Let_def)
  have pr: "\<exists>ranked issues. PHPAnalyzer_Run sortPHP config phpFiles = Inr (ranked, issues)
      \<and> rankedBy (php_sortKey config) (TopN config) (php_retained config phpFiles) ranked"
    using n rankedBy_contract [OF p, of "php_sortKey config" "TopN config" "php_retained config phpFiles"]
    by (auto simp: php_run_shape Let_def)
  have jr: "\<exists>ranked issues. JSAnalyzer_Run sortJS config jsFiles = Inr (ranked, issues)
      \<and> rankedBy (js_sortKey config) (TopN config) (js_retained config jsFiles) ranked"
    using n rankedBy_contract [OF j, of "js_sortKey config" "TopN config" "js_retained config jsFiles"]
    by (auto simp: js_run_shape Let_def)
  have cr: "\<exists>ranked issues. ConflictsAnalyzer_Run sortConflicts config conflictFiles = Inr (ranked, issues)
      \<and> rankedBy conflicts_sortKey (TopN config) (conflicts_retained config conflictFiles) ranked"
    using n rankedBy_contract [OF c, of conflicts_sortKey "TopN config" "conflicts_retained config conflictFiles"]
    by (auto simp: conflicts_run_shape Let_def)
  from hr pr jr cr show ?thesis by (intro conjI)
qed

theorem C1_ranking_witness:
  "sliceSortContract (insertionSort :: HTMLFileAnalysis sliceSort)
   \<and> sliceSortContract (insertionSort :: PHPFileAnalysis sliceSort)
   \<and> sliceSortContract (insertionSort :: JSFileAnalysis sliceSort)
   \<and> sliceSortContract (insertionSort :: ConflictFileAnalysis sliceSort)
   \<and> 0 \<le> TopN exampleConfig
   \<and> (\<exists>ranked issues.
        JSAnalyzer_Run insertionSort exampleConfig [Some jsFileA, None, Some jsFileB] = Inr (ranked, issues)
        \<and> rankedBy (js_sortKey exampleConfig) (TopN exampleConfig)
             (js_retained exampleConfig [Some jsFileA, None, Some jsFileB]) ranked)"
proof -
  have n: "0 \<le> TopN exampleConfig" by (simp add: exampleConfig_def)
  from C1_ranking [OF insertionSort_contract insertionSort_contract insertionSort_contract
      insertionSort_contract n, of "[]" "[]" "[Some jsFileA, None, Some jsFileB]" "[]"]
  have "\<exists>ranked issues.
        JSAnalyzer_Run insertionSort exampleConfig [Some jsFileA, None, Some jsFileB] = Inr (ranked, issues)
        \<and> rankedBy (js_sortKey exampleConfig) (TopN exampleConfig)
             (js_retained exampleConfig [Some jsFileA, None, Some jsFileB]) ranked"
    by blast
  with insertionSort_contract [where ?'a = HTMLFileAnalysis]
    insertionSort_contract [where ?'a = PHPFileAnalysis]
    insertionSort_contract [where ?'a = JSFileAnalysis]
    insertionSort_contract [where ?'a = ConflictFileAnalysis] n
  show ?thesis by (intro conjI)
qed


section \<open>The is-code heuristic of the JS analyzer\<close>

definition indicators :: "string list" where
  "indicators =
     ['';'', ''{'', ''}'', ''function'', ''const '', ''var '', ''let '', ''=>'', ''return'',
      ''import '', ''export '', ''class '', ''if ('', ''for ('', ''while ('', ''console.log'']"

definition textIndicators :: "string list" where
  "textIndicators =
     [''TODO:'', ''FIXME:'', ''NOTE:'', ''http://'', ''https://'', '' This '', '' The '', '' To '']"

definition isCode :: "string \<Rightarrow> bool" where
  "isCode text =
     (let score = (0::int);
          score = foldl (\<lambda>score ind. if Contains text ind then score + 1 else score) score indicators;
          score = foldl (\<lambda>score ind. if Contains text ind then score - 1 else score) score textIndicators
      in score \<ge> 1)"

text \<open>
  The score as the specification words it: one up for each occurrence of a
  code-indicative token in the text, one down for each occurrence of a prose-indicative
  token.
\<close>

fun occurrences :: "string \<Rightarrow> string \<Rightarrow> nat" where
  "occurrences [] tok = 0"
| "occurrences (c # cs) tok = (if HasPrefix (c # cs) tok then 1 else 0) + occurrences cs tok"

definition spec_occurrenceScore :: "string \<Rightarrow> int" where
  "spec_occurrenceScore text =
     (\<Sum>ind\<leftarrow>indicators. int (occurrences text ind)) - (\<Sum>ind\<leftarrow>textIndicators. int (occurrences text ind))"

subsection \<open>Properties of the is-code heuristic\<close>

lemma score_up: "foldl (\<lambda>score ind. if P ind then score + 1 else score) (s::int) inds = s + int (length (filter P inds))"
  by (induction inds arbitrary: s) auto

lemma score_down: "foldl (\<lambda>score ind. if P ind then score - 1 else score) (s::int) inds = s - int (length (filter P inds))"
  by (induction inds arbitrary: s) auto

text \<open>
  C7, as amended. A candidate is classified as commented-out code exactly when its score
  is at least 1, where the score goes up by one for each code-indicative token that the
  text contains, however often, and down by one for each prose-indicative token that the
  text contains.
\<close>

theorem C7_isCode_presence_score:
  "isCode text \<longleftrightarrow>
     int (length (filter (Contains text) indicators))
       - int (length (filter (Contains text) textIndicators)) \<ge> 1"
  by (simp add: isCode_def score_up score_down)

text \<open>
  The claim as stated counts occurrences. The text \<open>TODO: x; y;\<close> has two semicolons and
  one \<open>TODO:\<close>: its occurrence score is 1, but \<open>isCode\<close> scores it 0 and rejects it.
\<close>

theorem C7_occurrence_score_counterexample:
  "\<not> (isCode ''TODO: x; y;'' \<longleftrightarrow> spec_occurrenceScore ''TODO: x; y;'' \<ge> 1)"
  by (simp add: isCode_def spec_occurrenceScore_def indicators_def textIndicators_def Contains_def)


section \<open>Regular expressions of the Go library\<close>

text \<open>
  The rules compile their patterns with \<open>regexp.MustCompile\<close>. A compiled pattern is
  modelled by its syntax tree: a character class, the empty pattern, the line start
  \<open>^\<close> of multi-line mode, sequence, alternative (the left branch is preferred), the
  greedy and the non-greedy star, and the capturing group (the patterns of this program
  have at most one).

  The library returns the leftmost match and, among the matches that start there, the
  one a backtracking search finds first. \<open>ends r s\<close> lists the states in which a
  backtracking search can leave \<open>r\<close> when it starts in state \<open>s\<close>, in the order of the
  search. A state is the position in the text, as the text before it (reversed) and the
  text after it, together with the span of the capturing group when it has been passed.

  The patterns of this program contain only ASCII characters, classes of ASCII
  characters and their complements, and \<open>.\<close> in the mode where it matches every
  character; on such patterns matching bytes and matching UTF-8 runes give the same
  spans.
\<close>

datatype re =
    Sym "char \<Rightarrow> bool"
  | Eps
  | Bol
  | Seq re re
  | Alt re re
  | Star re
  | LazyStar re
  | Group re

type_synonym cursor = "string \<times> string"
type_synonym mstate = "cursor \<times> (nat \<times> nat) option"

definition pos :: "cursor \<Rightarrow> nat" where
  "pos c = length (fst c)"

definition ahead :: "mstate \<Rightarrow> mstate \<Rightarrow> bool" where
  "ahead t s = (length (snd (fst t)) < length (snd (fst s)))"

function ends :: "re \<Rightarrow> mstate \<Rightarrow> mstate list" where
  "ends (Sym p) s =
     (case snd (fst s) of
        [] \<Rightarrow> []
      | c # cs \<Rightarrow> if p c then [((c # fst (fst s), cs), snd s)] else [])"
| "ends Eps s = [s]"
| "ends Bol s = (if fst (fst s) = [] \<or> hd (fst (fst s)) = CHR 0x0A then [s] else [])"
| "ends (Seq r1 r2) s = concat (map (ends r2) (ends r1 s))"
| "ends (Alt r1 r2) s = ends r1 s @ ends r2 s"
| "ends (Star r) s = concat (map (ends (Star r)) (filter (\<lambda>t. ahead t s) (ends r s))) @ [s]"
| "ends (LazyStar r) s = s # concat (map (ends (LazyStar r)) (filter (\<lambda>t. ahead t s) (ends r s)))"
| "ends (Group r) s = map (\<lambda>t. (fst t, Some (pos (fst s), pos (fst t)))) (ends r s)"
  by pat_completeness auto
termination
  by (relation "measures [\<lambda>(r, s). size r, \<lambda>(r, s). length (snd (fst s))]") (auto simp: ahead_def)

declare ends.simps [simp del]

fun findFrom :: "re \<Rightarrow> string \<Rightarrow> string \<Rightarrow> (nat \<times> mstate) option" where
  "findFrom r pre [] =
     (case ends r ((pre, []), None) of [] \<Rightarrow> None | e # es \<Rightarrow> Some (length pre, e))"
| "findFrom r pre (c # cs) =
     (case ends r ((pre, c # cs), None) of
        [] \<Rightarrow> findFrom r (c # pre) cs
      | e # es \<Rightarrow> Some (length pre, e))"

text \<open>
  Derived forms: a literal string, \<open>r+\<close>, \<open>r?\<close>, and \<open>.\<close> in the mode \<open>(?s)\<close>.
\<close>

definition lit :: "string \<Rightarrow> re" where
  "lit s = foldr (\<lambda>c r. Seq (Sym (\<lambda>x. x = c)) r) s Eps"

definition anyChar :: re where
  "anyChar = Sym (\<lambda>c. True)"

definition Plus :: "re \<Rightarrow> re" where
  "Plus r = Seq r (Star r)"

definition Opt :: "re \<Rightarrow> re" where
  "Opt r = Alt r Eps"

text \<open>
  \<open>allMatches\<close> of the library drives \<open>FindAllStringIndex\<close> and its variants: the next
  search starts where the last match ended; after an empty match it starts one
  character later, and an empty match right after the previous match is not delivered.
  The result lists, for every match, its start offset, its end offset and the span of
  the capturing group.
\<close>

function allMatches :: "re \<Rightarrow> nat option \<Rightarrow> string \<Rightarrow> string \<Rightarrow> (nat \<times> nat \<times> (nat \<times> nat) option) list" where
  "allMatches r prevMatchEnd pre rest =
     (case findFrom r pre rest of
        None \<Rightarrow> []
      | Some (start, e) \<Rightarrow>
          if length (snd (fst e)) < length rest
          then (start, pos (fst e), snd e) # allMatches r (Some (pos (fst e))) (fst (fst e)) (snd (fst e))
          else (if Some start = prevMatchEnd then [] else [(start, pos (fst e), snd e)]) @
               (case rest of
                  [] \<Rightarrow> []
                | c # cs \<Rightarrow> allMatches r (Some (pos (fst e))) (c # pre) cs))"
  by pat_completeness auto
termination
  by (relation "measure (\<lambda>(r, p, pre, rest). length rest)") auto

declare allMatches.simps [simp del]

definition FindAllStringSubmatchIndex :: "re \<Rightarrow> string \<Rightarrow> (nat \<times> nat \<times> (nat \<times> nat) option) list" where
  "FindAllStringSubmatchIndex r s = allMatches r None [] s"

definition FindAllStringIndex :: "re \<Rightarrow> string \<Rightarrow> (nat \<times> nat) list" where
  "FindAllStringIndex r s = map (\<lambda>(a, b, g). (a, b)) (allMatches r None [] s)"

definition FindStringIndex :: "re \<Rightarrow> string \<Rightarrow> (nat \<times> nat) option" where
  "FindStringIndex r s =
     (case findFrom r [] s of None \<Rightarrow> None | Some (start, e) \<Rightarrow> Some (start, pos (fst e)))"

definition MatchString :: "re \<Rightarrow> string \<Rightarrow> bool" where
  "MatchString r s = (findFrom r [] s \<noteq> None)"

text \<open>For the statements below: the words a pattern can match.\<close>

inductive_set starL :: "string set \<Rightarrow> string set" for A :: "string set" where
  nil: "[] \<in> starL A"
| app: "u \<in> A \<Longrightarrow> v \<in> starL A \<Longrightarrow> u @ v \<in> starL A"

fun lang :: "re \<Rightarrow> string set" where
  "lang (Sym p) = {[c] | c. p c}"
| "lang Eps = {[]}"
| "lang Bol = {[]}"
| "lang (Seq r1 r2) = {u @ v | u v. u \<in> lang r1 \<and> v \<in> lang r2}"
| "lang (Alt r1 r2) = lang r1 \<union> lang r2"
| "lang (Star r) = starL (lang r)"
| "lang (LazyStar r) = starL (lang r)"
| "lang (Group r) = lang r"



text \<open>For the statements below: the states the matcher passes through, and what a reported match is.\<close>

definition reach :: "mstate \<Rightarrow> string \<Rightarrow> mstate \<Rightarrow> bool" where
  "reach s w t = (snd (fst s) = w @ snd (fst t) \<and> fst (fst t) = rev w @ fst (fst s))"

definition matchOK :: "re \<Rightarrow> string \<Rightarrow> nat \<Rightarrow> nat \<times> nat \<times> (nat \<times> nat) option \<Rightarrow> bool" where
  "matchOK r text lo m = (lo \<le> fst m \<and> fst m \<le> fst (snd m) \<and> fst (snd m) \<le> length text
      \<and> slice text (fst m) (fst (snd m)) \<in> lang r)"

subsection \<open>Properties of the matcher\<close>

lemma reach_trans: "reach s u m \<Longrightarrow> reach m v t \<Longrightarrow> reach s (u @ v) t"
  by (simp add: reach_def)

lemma ends_sound: "t \<in> set (ends r s) \<Longrightarrow> \<exists>w. reach s w t \<and> w \<in> lang r"
proof (induction r s arbitrary: t rule: ends.induct)
  case (1 p s)
  then show ?case
    by (cases s) (auto simp: ends.simps reach_def split: list.splits if_splits)
next
  case (2 s)
  then show ?case by (simp add: ends.simps reach_def)
next
  case (3 s)
  then show ?case by (simp add: ends.simps reach_def split: if_splits)
next
  case (4 r1 r2 s)
  from "4.prems" obtain m where m: "m \<in> set (ends r1 s)" and t: "t \<in> set (ends r2 m)"
    unfolding ends.simps by auto
  from "4.IH"(1) [OF m] obtain u where u: "reach s u m" "u \<in> lang r1" by blast
  from "4.IH"(2) [OF m t] obtain v where v: "reach m v t" "v \<in> lang r2" by blast
  from u v have "reach s (u @ v) t \<and> u @ v \<in> lang (Seq r1 r2)"
    by (auto intro: reach_trans)
  then show ?case by blast
next
  case (5 r1 r2 s)
  from "5.prems" consider "t \<in> set (ends r1 s)" | "t \<in> set (ends r2 s)"
    unfolding ends.simps by auto
  then show ?case
  proof cases
    case 1
    from "5.IH"(1) [OF 1] show ?thesis by auto
  next
    case 2
    from "5.IH"(2) [OF 2] show ?thesis by auto
  qed
next
  case (6 r s)
  show ?case
  proof (cases "t = s")
    case True
    then show ?thesis by (auto simp: reach_def intro: starL.nil)
  next
    case False
    with "6.prems" obtain m where m: "m \<in> set (ends r s)" "ahead m s"
      and t: "t \<in> set (ends (Star r) m)" unfolding ends.simps(6) [of r s] by auto
    from "6.IH"(1) [OF m(1)] obtain u where u: "reach s u m" "u \<in> lang r" by blast
    from m have "m \<in> set (filter (\<lambda>t. ahead t s) (ends r s))" by simp
    from "6.IH"(2) [OF this t] obtain v where v: "reach m v t" "v \<in> lang (Star r)" by blast
    from u v have "reach s (u @ v) t \<and> u @ v \<in> lang (Star r)"
      by (auto intro: reach_trans starL.app)
    then show ?thesis by blast
  qed
next
  case (7 r s)
  show ?case
  proof (cases "t = s")
    case True
    then show ?thesis by (auto simp: reach_def intro: starL.nil)
  next
    case False
    with "7.prems" obtain m where m: "m \<in> set (ends r s)" "ahead m s"
      and t: "t \<in> set (ends (LazyStar r) m)" unfolding ends.simps(7) [of r s] by auto
    from "7.IH"(1) [OF m(1)] obtain u where u: "reach s u m" "u \<in> lang r" by blast
    from m have "m \<in> set (filter (\<lambda>t. ahead t s) (ends r s))" by simp
    from "7.IH"(2) [OF this t] obtain v where v: "reach m v t" "v \<in> lang (LazyStar r)" by blast
    from u v have "reach s (u @ v) t \<and> u @ v \<in> lang (LazyStar r)"
      by (auto intro: reach_trans starL.app)
    then show ?thesis by blast
  qed
next
  case (8 r s)
  from "8.prems" obtain m where m: "m \<in> set (ends r s)" and t: "t = (fst m, Some (pos (fst s), pos (fst m)))"
    unfolding ends.simps by auto
  from "8.IH" [OF m] obtain w where "reach s w m" "w \<in> lang r" by blast
  with t show ?case by (auto simp: reach_def)
qed


lemma findFrom_sound:
  "findFrom r pre rest = Some (i, e) \<Longrightarrow>
     \<exists>u w. rest = u @ w @ snd (fst e) \<and> i = length pre + length u
        \<and> fst (fst e) = rev w @ rev u @ pre \<and> w \<in> lang r"
proof (induction rest arbitrary: pre)
  case Nil
  then have "e \<in> set (ends r ((pre, []), None))" and "i = length pre"
    by (auto split: list.splits)
  with ends_sound [of e r "((pre, []), None)"] show ?case
    by (auto simp: reach_def)
next
  case (Cons c cs)
  show ?case
  proof (cases "ends r ((pre, c # cs), None)")
    case Nil
    with Cons.prems have "findFrom r (c # pre) cs = Some (i, e)" by simp
    from Cons.IH [OF this] obtain u w where
      "cs = u @ w @ snd (fst e)" "i = length (c # pre) + length u"
      "fst (fst e) = rev w @ rev u @ c # pre" "w \<in> lang r" by blast
    then have "c # cs = (c # u) @ w @ snd (fst e) \<and> i = length pre + length (c # u)
        \<and> fst (fst e) = rev w @ rev (c # u) @ pre \<and> w \<in> lang r" by simp
    then show ?thesis by blast
  next
    case (Cons e' es)
    with Cons.prems have "e \<in> set (ends r ((pre, c # cs), None))" and "i = length pre"
      by auto
    with ends_sound [of e r "((pre, c # cs), None)"] obtain w where
      "c # cs = w @ snd (fst e)" "fst (fst e) = rev w @ pre" "w \<in> lang r"
      by (auto simp: reach_def)
    then have "c # cs = [] @ w @ snd (fst e) \<and> i = length pre + length ([]::string)
        \<and> fst (fst e) = rev w @ rev [] @ pre \<and> w \<in> lang r"
      using \<open>i = length pre\<close> by simp
    then show ?thesis by blast
  qed
qed

lemma slice_middle: "slice (p @ w @ q) (length p) (length p + length w) = w"
  by (simp add: slice_def)

lemma allMatches_props:
  "sorted_wrt (\<lambda>x y. fst (snd x) \<le> fst y) (allMatches r p pre rest)
   \<and> (\<forall>m\<in>set (allMatches r p pre rest). matchOK r (rev pre @ rest) (length pre) m)"
proof (induction r p pre rest rule: allMatches.induct)
  case (1 r p pre rest)
  show ?case
  proof (cases "findFrom r pre rest")
    case None
    then show ?thesis by (simp add: allMatches.simps [of r p pre rest])
  next
    case (Some ie)
    obtain i e where ie: "ie = (i, e)" by (cases ie)
    from findFrom_sound [OF Some [unfolded ie]] obtain u w where
      uw: "rest = u @ w @ snd (fst e)" "i = length pre + length u"
      "fst (fst e) = rev w @ rev u @ pre" "w \<in> lang r" by blast
    have this_ok: "matchOK r (rev pre @ rest) (length pre) (i, pos (fst e), snd e)"
      using uw by (simp add: matchOK_def pos_def slice_def)
    show ?thesis
    proof (cases "length (snd (fst e)) < length rest")
      case True
      let ?tl = "allMatches r (Some (pos (fst e))) (fst (fst e)) (snd (fst e))"
      from "1.IH"(1) [OF Some ie [symmetric] True]
      have ih: "sorted_wrt (\<lambda>x y. fst (snd x) \<le> fst y) ?tl"
        "\<forall>m\<in>set ?tl. matchOK r (rev (fst (fst e)) @ snd (fst e)) (length (fst (fst e))) m"
        by blast+
      have same_text: "rev (fst (fst e)) @ snd (fst e) = rev pre @ rest"
        using uw by simp
      have eq: "allMatches r p pre rest = (i, pos (fst e), snd e) # ?tl"
        using Some ie True by (simp add: allMatches.simps [of r p pre rest])
      have "\<forall>m\<in>set ?tl. pos (fst e) \<le> fst m \<and> matchOK r (rev pre @ rest) (length pre) m"
        using ih(2) uw unfolding same_text by (auto simp: matchOK_def pos_def)
      with ih(1) this_ok show ?thesis unfolding eq by auto
    next
      case False
      with uw have empty: "u = []" "w = []" by auto
      have eq: "allMatches r p pre rest =
          (if Some i = p then [] else [(i, pos (fst e), snd e)]) @
          (case rest of [] \<Rightarrow> [] | c # cs \<Rightarrow> allMatches r (Some (pos (fst e))) (c # pre) cs)"
        by (subst allMatches.simps) (simp add: Some ie False)
      show ?thesis
      proof (cases rest)
        case Nil
        with this_ok show ?thesis unfolding eq by simp
      next
        case (Cons c cs)
        let ?tl = "allMatches r (Some (pos (fst e))) (c # pre) cs"
        from "1.IH"(2) [OF Some ie [symmetric] False Cons]
        have ih: "sorted_wrt (\<lambda>x y. fst (snd x) \<le> fst y) ?tl"
          "\<forall>m\<in>set ?tl. matchOK r (rev (c # pre) @ cs) (length (c # pre)) m"
          by blast+
        have tx: "rev (c # pre) @ cs = rev pre @ rest"
          using Cons by simp
        have pe: "pos (fst e) = length pre"
          using uw empty by (simp add: pos_def)
        have "\<forall>m\<in>set ?tl. pos (fst e) \<le> fst m \<and> matchOK r (rev pre @ rest) (length pre) m"
          using ih(2) unfolding tx pe by (auto simp: matchOK_def)
        with ih(1) this_ok show ?thesis
          unfolding Cons eq [unfolded Cons list.case] by (auto simp: sorted_wrt_append)
      qed
    qed
  qed
qed


section \<open>The commented-code rule of the HTML analyzer\<close>

record CommentedCodeFinding =
  CommentedBytes :: nat
  CommentedLines :: nat
  LargestBlock :: nat
  Issues :: "Issue list"

record ruleAcc =
  commentedBytes :: nat
  commentedLines :: nat
  largestBlock :: nat
  ccIssues :: "Issue list"

text \<open>\<open>strings.Count(s, "\n")\<close>.\<close>

definition countNL :: "string \<Rightarrow> nat" where
  "countNL s = length (filter (\<lambda>c. c = CHR 0x0A) s)"

text \<open>The patterns \<open>(?s)<!--.*?-->\<close> and \<open><[/a-zA-Z][^>]*>\<close>.\<close>

definition commentRegex :: re where
  "commentRegex = Seq (lit ''<!--'') (Seq (LazyStar anyChar) (lit ''-->''))"

definition tagStart :: "char \<Rightarrow> bool" where
  "tagStart c =
     (let n = (of_char c :: nat) in n = 47 \<or> (97 \<le> n \<and> n \<le> 122) \<or> (65 \<le> n \<and> n \<le> 90))"

definition tagRegex :: re where
  "tagRegex =
     Seq (lit ''<'') (Seq (Sym tagStart) (Seq (Star (Sym (\<lambda>c. c \<noteq> CHR ''>''))) (lit ''>'')))"

definition innerText :: "string \<Rightarrow> string" where
  "innerText match = (if length match \<ge> 7 then slice match 4 (length match - 3) else match)"

definition htmlStep :: "string \<Rightarrow> ruleAcc \<Rightarrow> nat \<times> nat \<Rightarrow> ruleAcc" where
  "htmlStep content st = (\<lambda>(start, end).
     (let match = slice content start end;
          inner = innerText match
      in if \<not> MatchString tagRegex inner then st
         else
           (let matchLen = length match;
                matchLines = countNL match + 1;
                lineNumber = countNL (slice content 0 start) + 1
            in st\<lparr>commentedBytes := commentedBytes st + matchLen,
                  commentedLines := commentedLines st + matchLines,
                  largestBlock := (if matchLen > largestBlock st then matchLen else largestBlock st),
                  ccIssues := ccIssues st @
                    [\<lparr>Path = [],
                      Description = ''Commented out HTML code block ('' @ showNat matchLen @ '' bytes)'',
                      Line = lineNumber, Severity = ''minor''\<rparr>]\<rparr>)))"

definition html_Apply :: "string \<Rightarrow> CommentedCodeFinding option" where
  "html_Apply content =
     (let matches = FindAllStringIndex commentRegex content;
          st = foldl (htmlStep content)
                 \<lparr>commentedBytes = 0, commentedLines = 0, largestBlock = 0, ccIssues = []\<rparr> matches
      in if commentedBytes st = 0 then None
         else Some \<lparr>CommentedBytes = commentedBytes st, CommentedLines = commentedLines st,
                    LargestBlock = largestBlock st, Issues = ccIssues st\<rparr>)"


text \<open>
  For the statements below: whether the rule counts a match of the comment pattern, and
  the issue it then adds.
\<close>

definition htmlQualifies :: "string \<Rightarrow> nat \<times> nat \<Rightarrow> bool" where
  "htmlQualifies content = (\<lambda>(a, b). MatchString tagRegex (innerText (slice content a b)))"

definition htmlIssue :: "string \<Rightarrow> nat \<times> nat \<Rightarrow> Issue" where
  "htmlIssue content = (\<lambda>(a, b).
     \<lparr>Path = [],
      Description = ''Commented out HTML code block ('' @ showNat (length (slice content a b)) @ '' bytes)'',
      Line = countNL (slice content 0 a) + 1, Severity = ''minor''\<rparr>)"

subsection \<open>Properties of the HTML rule\<close>

lemma lang_lit: "lang (lit s) = {s}"
  by (induction s) (auto simp: lit_def)

lemma comment_shape:
  assumes "m \<in> lang commentRegex"
  shows "\<exists>w. m = ''<!--'' @ w @ ''-->''"
  using assms unfolding commentRegex_def by (auto simp: lang_lit)

lemma innerText_shape: "innerText (''<!--'' @ w @ ''-->'') = w"
  by (simp add: innerText_def slice_def)

lemma FindAllStringIndex_props:
  assumes "(a, b) \<in> set (FindAllStringIndex r content)"
  shows "a \<le> b \<and> b \<le> length content \<and> slice content a b \<in> lang r"
proof -
  from assms obtain g where "(a, b, g) \<in> set (allMatches r None [] content)"
    by (auto simp: FindAllStringIndex_def)
  with allMatches_props [of r None "[]" content]
  have "matchOK r content 0 (a, b, g)" by auto
  then show ?thesis by (simp add: matchOK_def)
qed

lemma slice_length: "a \<le> b \<Longrightarrow> b \<le> length s \<Longrightarrow> length (slice s a b) = b - a"
  by (simp add: slice_def)

lemma slice_slice:
  assumes "a + i \<le> b - j"
  shows "slice (slice s a b) i (b - a - j) = slice s (a + i) (b - j)"
proof -
  have d: "drop i (take (b - a) (drop a s)) = take (b - a - i) (drop (a + i) s)"
    by (simp add: drop_take add.commute)
  have n: "b - a - j - i = b - j - (a + i)" "b - a - j - i \<le> b - a - i"
    using assms by arith+
  show ?thesis
    unfolding slice_def d using n by (simp add: min_def)
qed

lemma html_match:
  assumes "(a, b) \<in> set (FindAllStringIndex commentRegex content)"
  shows "a + 7 \<le> b \<and> b \<le> length content \<and> length (slice content a b) \<ge> 7
      \<and> slice content a b = ''<!--'' @ innerText (slice content a b) @ ''-->''
      \<and> innerText (slice content a b) = slice content (a + 4) (b - 3)"
proof -
  from FindAllStringIndex_props [OF assms]
  have ab: "a \<le> b" "b \<le> length content" and l: "slice content a b \<in> lang commentRegex"
    by blast+
  from comment_shape [OF l] obtain w where w: "slice content a b = ''<!--'' @ w @ ''-->''" ..
  have len: "length (slice content a b) = b - a"
    using ab by (rule slice_length)
  with w have ge: "a + 7 \<le> b" by simp
  from ge have "7 \<le> b - a" by arith
  then have "innerText (slice content a b) = slice (slice content a b) 4 (b - a - 3)"
    using len by (simp add: innerText_def)
  also have "\<dots> = slice content (a + 4) (b - 3)"
    using ge by (intro slice_slice) arith
  finally have i: "innerText (slice content a b) = slice content (a + 4) (b - 3)" .
  have "innerText (slice content a b) = w"
    unfolding w by (rule innerText_shape)
  with w ge ab len i show ?thesis by simp
qed


text \<open>
  C10. Every match of the comment pattern is at least 7 bytes long and lies within the
  content, so the inner text is always taken by the slice \<open>match[4 : len(match)-3]\<close>:
  it is exactly the text between \<open><!--\<close> and \<open>-->\<close>.
\<close>

theorem C10_html_match_length:
  "\<forall>(a, b)\<in>set (FindAllStringIndex commentRegex content).
      a + 7 \<le> b \<and> b \<le> length content \<and> length (slice content a b) \<ge> 7
      \<and> slice content a b = ''<!--'' @ innerText (slice content a b) @ ''-->''
      \<and> innerText (slice content a b) = slice content (a + 4) (b - 3)"
  using html_match by blast

theorem C10_html_match_length_witness:
  "(0, 14) \<in> set (FindAllStringIndex commentRegex ''<!-- <div> -->'')
   \<and> (0::nat) + 7 \<le> 14 \<and> 14 \<le> length ''<!-- <div> -->''
   \<and> length (slice ''<!-- <div> -->'' 0 14) \<ge> 7
   \<and> slice ''<!-- <div> -->'' 0 14 = ''<!--'' @ innerText (slice ''<!-- <div> -->'' 0 14) @ ''-->''
   \<and> innerText (slice ''<!-- <div> -->'' 0 14) = slice ''<!-- <div> -->'' (0 + 4) (14 - 3)"
proof -
  have m: "FindAllStringIndex commentRegex ''<!-- <div> -->'' = [(0, 14)]"
    by code_simp
  then have h: "(0, 14) \<in> set (FindAllStringIndex commentRegex ''<!-- <div> -->'')"
    by simp
  note c = bspec [OF C10_html_match_length h, unfolded prod.case]
  from h c show ?thesis by (rule conjI)
qed


lemma html_fold:
  "ccIssues (foldl (htmlStep content) st ms) =
     ccIssues st @ map (htmlIssue content) (filter (htmlQualifies content) ms)
   \<and> commentedBytes (foldl (htmlStep content) st ms) =
     commentedBytes st +
       sum_list (map (\<lambda>(a, b). length (slice content a b)) (filter (htmlQualifies content) ms))"
  by (induction ms arbitrary: st)
    (auto simp: htmlStep_def htmlQualifies_def htmlIssue_def Let_def)

lemma ends_Sym:
  "ends (Sym q) ((p, c # rest), g) = (if q c then [((c # p, rest), g)] else [])"
  by (simp add: ends.simps)

lemma ends_Seq: "ends (Seq r1 r2) s = concat (map (ends r2) (ends r1 s))"
  by (simp add: ends.simps)

lemma ends_lit: "ends (lit x) ((p, x @ rest), g) = [((rev x @ p, rest), g)]"
proof (induction x arbitrary: p)
  case Nil
  then show ?case by (simp add: lit_def ends.simps)
next
  case (Cons c x)
  have "lit (c # x) = Seq (Sym (\<lambda>y. y = c)) (lit x)" by (simp add: lit_def)
  then show ?case using Cons [of "c # p"] by (simp add: ends_Seq ends_Sym)
qed

lemma ends_Star_all:
  "\<forall>c\<in>set v. q c \<Longrightarrow>
     ((rev v @ p, rest), g) \<in> set (ends (Star (Sym q)) ((p, v @ rest), g))"
proof (induction v arbitrary: p)
  case Nil
  then show ?case by (simp add: ends.simps(6) [of _ "((p, rest), g)"])
next
  case (Cons c v)
  then have ih: "((rev v @ c # p, rest), g) \<in> set (ends (Star (Sym q)) ((c # p, v @ rest), g))"
    and qc: "q c" by auto
  have "ends (Star (Sym q)) ((p, c # v @ rest), g) =
      ends (Star (Sym q)) ((c # p, v @ rest), g) @ [((p, c # v @ rest), g)]"
    by (subst ends.simps(6)) (simp add: ends_Sym qc ahead_def)
  with ih show ?case by simp
qed

lemma findFrom_complete:
  "ends r ((rev u @ pre, rest), None) \<noteq> [] \<Longrightarrow> findFrom r pre (u @ rest) \<noteq> None"
proof (induction u arbitrary: pre)
  case Nil
  then show ?case by (cases rest) (auto split: list.splits)
next
  case (Cons c u)
  from Cons.prems have "ends r ((rev u @ c # pre, rest), None) \<noteq> []" by simp
  from Cons.IH [OF this] show ?case by (auto split: list.splits)
qed

lemma starL_no_gt:
  "v \<in> starL {[c] | c. c \<noteq> CHR ''>''} \<Longrightarrow> CHR ''>'' \<notin> set v"
  by (induction rule: starL.induct) auto

lemma tag_shaped:
  "MatchString tagRegex t \<longleftrightarrow>
     (\<exists>u c v w. t = u @ CHR ''<'' # c # v @ CHR ''>'' # w \<and> tagStart c \<and> CHR ''>'' \<notin> set v)"
proof
  assume "MatchString tagRegex t"
  then obtain i e where "findFrom tagRegex [] t = Some (i, e)"
    by (auto simp: MatchString_def)
  from findFrom_sound [OF this] obtain u m where
    t: "t = u @ m @ snd (fst e)" and m: "m \<in> lang tagRegex" by blast
  from m obtain c v where "m = CHR ''<'' # c # v @ ''>''" "tagStart c"
    "v \<in> starL {[c] | c. c \<noteq> CHR ''>''}"
    unfolding tagRegex_def by (auto simp: lang_lit)
  with t starL_no_gt [of v]
  have "t = u @ CHR ''<'' # c # v @ CHR ''>'' # snd (fst e) \<and> tagStart c \<and> CHR ''>'' \<notin> set v"
    by simp
  then show "\<exists>u c v w. t = u @ CHR ''<'' # c # v @ CHR ''>'' # w \<and> tagStart c \<and> CHR ''>'' \<notin> set v"
    by blast
next
  assume "\<exists>u c v w. t = u @ CHR ''<'' # c # v @ CHR ''>'' # w \<and> tagStart c \<and> CHR ''>'' \<notin> set v"
  then obtain u c v w where t: "t = u @ CHR ''<'' # c # v @ CHR ''>'' # w"
    and c: "tagStart c" and v: "CHR ''>'' \<notin> set v" by blast
  let ?s0 = "((rev u, CHR ''<'' # c # v @ CHR ''>'' # w), None :: (nat \<times> nat) option)"
  let ?s2 = "((c # CHR ''<'' # rev u, v @ CHR ''>'' # w), None :: (nat \<times> nat) option)"
  let ?s3 = "((rev v @ c # CHR ''<'' # rev u, CHR ''>'' # w), None :: (nat \<times> nat) option)"
  let ?tail = "Seq (Star (Sym (\<lambda>c. c \<noteq> CHR ''>''))) (lit ''>'')"
  have a: "ends (lit ''<'') ?s0 = [((CHR ''<'' # rev u, c # v @ CHR ''>'' # w), None)]"
    using ends_lit [of "''<''" "rev u" "c # v @ CHR ''>'' # w" None] by simp
  have b: "?s3 \<in> set (ends (Star (Sym (\<lambda>c. c \<noteq> CHR ''>''))) ?s2)"
    using v by (intro ends_Star_all) auto
  have d: "ends (lit ''>'') ?s3 \<noteq> []"
    using ends_lit [of "''>''" "rev v @ c # CHR ''<'' # rev u" w None] by simp
  from b d have "ends ?tail ?s2 \<noteq> []"
    unfolding ends_Seq by auto
  with a c have "ends tagRegex ?s0 \<noteq> []"
    unfolding tagRegex_def ends_Seq by (simp add: ends_Sym)
  then have "findFrom tagRegex [] (u @ CHR ''<'' # c # v @ CHR ''>'' # w) \<noteq> None"
    by (intro findFrom_complete) simp
  with t show "MatchString tagRegex t" by (simp add: MatchString_def)
qed


lemma htmlQualifies_eq:
  assumes "m \<in> set (FindAllStringIndex commentRegex content)"
  shows "htmlQualifies content m =
     (case m of (a, b) \<Rightarrow> MatchString tagRegex (slice content (a + 4) (b - 3)))"
proof -
  obtain a b where m: "m = (a, b)" by (cases m)
  with assms html_match [of a b content] show ?thesis
    by (simp add: htmlQualifies_def)
qed

lemma html_Apply_issues:
  "(case html_Apply content of None \<Rightarrow> [] | Some f \<Rightarrow> Issues f) =
     map (htmlIssue content)
       (filter (\<lambda>(a, b). MatchString tagRegex (slice content (a + 4) (b - 3)))
          (FindAllStringIndex commentRegex content))"
proof -
  let ?ms = "FindAllStringIndex commentRegex content"
  let ?q = "filter (htmlQualifies content) ?ms"
  let ?st = "foldl (htmlStep content)
      \<lparr>commentedBytes = 0, commentedLines = 0, largestBlock = 0, ccIssues = []\<rparr> ?ms"
  have q: "?q = filter (\<lambda>(a, b). MatchString tagRegex (slice content (a + 4) (b - 3))) ?ms"
    by (rule filter_cong) (auto simp: htmlQualifies_eq)
  have i: "ccIssues ?st = map (htmlIssue content) ?q"
    and b: "commentedBytes ?st = sum_list (map (\<lambda>(a, b). length (slice content a b)) ?q)"
    using html_fold [of content _ ?ms] by simp_all
  have "commentedBytes ?st = 0 \<Longrightarrow> ?q = []"
  proof (rule ccontr)
    assume z: "commentedBytes ?st = 0" and "?q \<noteq> []"
    then obtain m where m: "m \<in> set ?q" by (cases ?q) auto
    obtain a b where ab: "m = (a, b)" by (cases m)
    from m ab html_match [of a b content] have "length (slice content a b) \<ge> 7" by simp
    moreover from z b m ab have "length (slice content a b) = 0" by (auto simp: sum_list_eq_0_iff)
    ultimately show False by simp
  qed
  then show ?thesis
    unfolding q [symmetric] by (auto simp: html_Apply_def Let_def i)
qed

lemma html_Apply_None:
  "html_Apply content = None \<longleftrightarrow>
     (\<forall>(a, b)\<in>set (FindAllStringIndex commentRegex content).
        \<not> MatchString tagRegex (slice content (a + 4) (b - 3)))"
proof -
  have "html_Apply content = None \<longleftrightarrow>
      (case html_Apply content of None \<Rightarrow> [] | Some f \<Rightarrow> Issues f) = []"
    using html_fold [of content
        "\<lparr>commentedBytes = 0, commentedLines = 0, largestBlock = 0, ccIssues = []\<rparr>"
        "FindAllStringIndex commentRegex content"]
      html_match [of _ _ content]
    by (auto simp: html_Apply_def Let_def htmlQualifies_def sum_list_eq_0_iff filter_empty_conv)
  then show ?thesis
    unfolding html_Apply_issues by (auto simp: filter_empty_conv)
qed

lemma html_scenarios:
  "html_Apply ''<!-- This is a regular comment -->'' = None"
  "html_Apply ''<!-- This is a regular comment -->\<newline><div>Hello</div>'' = None"
  "html_Apply ''<p>x</p>\<newline><!-- <div>old</div> -->\<newline>'' =
     Some \<lparr>CommentedBytes = 23, CommentedLines = 1, LargestBlock = 23,
           Issues = [\<lparr>Path = [], Description = ''Commented out HTML code block (23 bytes)'',
                      Line = 2, Severity = ''minor''\<rparr>]\<rparr>"
  by code_simp+

text \<open>
  C9. The issues of an HTML file are one minor issue for every match of the comment
  pattern whose text between the delimiters has a tag-shaped substring (\<open><\<close>, then a
  letter or \<open>/\<close>, then characters other than \<open>>\<close>, then \<open>>\<close>), at the line where the match
  starts, and no other; the rule returns nothing exactly when no match has such a
  substring. A file whose only comment is \<open><!-- This is a regular comment -->\<close> gives
  nothing, and a file whose comment wraps a \<open>div\<close> gives exactly one minor issue at the
  line of the comment.
\<close>

theorem C9_html_commented_code:
  "map (\<lambda>i. (Line i, Severity i)) (case html_Apply content of None \<Rightarrow> [] | Some f \<Rightarrow> Issues f) =
     map (\<lambda>(a, b). (countNL (take a content) + 1, ''minor''))
       (filter (\<lambda>(a, b). MatchString tagRegex (slice content (a + 4) (b - 3)))
          (FindAllStringIndex commentRegex content))
   \<and> (html_Apply content = None \<longleftrightarrow>
        (\<forall>(a, b)\<in>set (FindAllStringIndex commentRegex content).
           \<not> MatchString tagRegex (slice content (a + 4) (b - 3))))
   \<and> (MatchString tagRegex t \<longleftrightarrow>
        (\<exists>u c v w. t = u @ CHR ''<'' # c # v @ CHR ''>'' # w \<and> tagStart c \<and> CHR ''>'' \<notin> set v))
   \<and> html_Apply ''<!-- This is a regular comment -->'' = None
   \<and> html_Apply ''<!-- This is a regular comment -->\<newline><div>Hello</div>'' = None
   \<and> html_Apply ''<p>x</p>\<newline><!-- <div>old</div> -->\<newline>'' =
       Some \<lparr>CommentedBytes = 23, CommentedLines = 1, LargestBlock = 23,
             Issues = [\<lparr>Path = [], Description = ''Commented out HTML code block (23 bytes)'',
                        Line = 2, Severity = ''minor''\<rparr>]\<rparr>"
proof -
  have a: "map (\<lambda>i. (Line i, Severity i))
      (case html_Apply content of None \<Rightarrow> [] | Some f \<Rightarrow> Issues f) =
     map (\<lambda>(a, b). (countNL (take a content) + 1, ''minor''))
       (filter (\<lambda>(a, b). MatchString tagRegex (slice content (a + 4) (b - 3)))
          (FindAllStringIndex commentRegex content))"
    unfolding html_Apply_issues by (simp add: htmlIssue_def slice_def split_def comp_def)
  from a html_Apply_None [of content] tag_shaped [of t] html_scenarios show ?thesis
    by blast
qed

theorem C9_html_commented_code_witness:
  "FindAllStringIndex commentRegex ''<!-- note -->'' = [(0, 13)]
   \<and> \<not> MatchString tagRegex (slice ''<!-- note -->'' (0 + 4) (13 - 3))
   \<and> html_Apply ''<!-- note -->'' = None"
proof -
  have m: "FindAllStringIndex commentRegex ''<!-- note -->'' = [(0, 13)]"
    by code_simp
  have n: "\<not> MatchString tagRegex (slice ''<!-- note -->'' (0 + 4) (13 - 3))"
    by code_simp
  from m n have "\<forall>(a, b)\<in>set (FindAllStringIndex commentRegex ''<!-- note -->'').
      \<not> MatchString tagRegex (slice ''<!-- note -->'' (a + 4) (b - 3))"
    by simp
  with C9_html_commented_code [of "''<!-- note -->''"]
  have "html_Apply ''<!-- note -->'' = None" by blast
  with m n show ?thesis by blast
qed


section \<open>The commented-code rule of the JS analyzer\<close>

text \<open>
  The pattern \<open>(?s)/\*(.*?)\*/\<close>, \<open>strings.Split(content, "\n")\<close>, and a loop that stops
  at the first error.
\<close>

definition multiLineRegex :: re where
  "multiLineRegex = Seq (lit ''/*'') (Seq (Group (LazyStar anyChar)) (lit ''*/''))"

fun splitAcc :: "string \<Rightarrow> string \<Rightarrow> string list" where
  "splitAcc acc [] = [rev acc]"
| "splitAcc acc (c # cs) =
     (if c = CHR 0x0A then rev acc # splitAcc [] cs else splitAcc (c # acc) cs)"

definition SplitLines :: "string \<Rightarrow> string list" where
  "SplitLines content = splitAcc [] content"

fun foldE :: "('s \<Rightarrow> 'a \<Rightarrow> error + 's) \<Rightarrow> 's \<Rightarrow> 'a list \<Rightarrow> error + 's" where
  "foldE f s [] = Inr s"
| "foldE f s (x # xs) = (case f s x of Inl e \<Rightarrow> Inl e | Inr s' \<Rightarrow> foldE f s' xs)"

record jsState = ruleAcc +
  currentBlock :: string
  inBlock :: bool
  blockStartLine :: nat

text \<open>
  The first loop of \<open>Apply\<close>, over the matches of the block-comment pattern. The slice
  \<open>content[loc[2]:loc[3]]\<close> panics when the group has no span.
\<close>

fun jsBlockStep :: "string \<Rightarrow> jsState \<Rightarrow> nat \<times> nat \<times> (nat \<times> nat) option \<Rightarrow> error + jsState" where
  "jsBlockStep content st (loc0, loc1, None) = Inl SliceBoundsOutOfRange"
| "jsBlockStep content st (loc0, loc1, Some (commentStart, commentEnd)) =
          (let commentContent = slice content commentStart commentEnd
           in if isCode commentContent
              then
                (let fullMatch = slice content loc0 loc1;
                     matchLen = length fullMatch;
                     matchLines = countNL fullMatch + 1;
                     lineNumber = countNL (slice content 0 loc0) + 1
                 in Inr (st\<lparr>commentedBytes := commentedBytes st + matchLen,
                             commentedLines := commentedLines st + matchLines,
                             largestBlock := (if matchLen > largestBlock st then matchLen else largestBlock st),
                             ccIssues := ccIssues st @
                               [\<lparr>Path = [],
                                 Description = ''Commented out JS code block ('' @ showNat matchLen @ '' bytes)'',
                                 Line = lineNumber, Severity = ''minor''\<rparr>]\<rparr>))
              else Inr st)"

text \<open>
  The end of a run of line comments: the block is analysed. The same code stands in the
  loop and after it.
\<close>

definition analyzeBlock :: "jsState \<Rightarrow> jsState" where
  "analyzeBlock st =
     (let blockContent = currentBlock st
      in if isCode blockContent
         then
           (let linesInBlock = countNL blockContent + 1;
                blockOriginalBytes = length blockContent + (linesInBlock * 2)
            in st\<lparr>commentedBytes := commentedBytes st + blockOriginalBytes,
                  commentedLines := commentedLines st + linesInBlock,
                  largestBlock :=
                    (if blockOriginalBytes > largestBlock st then blockOriginalBytes else largestBlock st),
                  ccIssues := ccIssues st @
                    [\<lparr>Path = [],
                      Description = ''Commented out JS code block ('' @ showNat blockOriginalBytes @ '' bytes)'',
                      Line = blockStartLine st, Severity = ''minor''\<rparr>]\<rparr>)
         else st)"

fun jsLineStep :: "jsState \<Rightarrow> nat \<times> string \<Rightarrow> jsState" where
  "jsLineStep st (i, line) =
     (let trimmed = TrimSpace line
      in if HasPrefix trimmed ''//''
         then
           (let commentContent = drop 2 trimmed
            in if inBlock st
               then st\<lparr>currentBlock := currentBlock st @ [CHR 0x0A] @ commentContent\<rparr>
               else st\<lparr>inBlock := True, blockStartLine := i + 1, currentBlock := commentContent\<rparr>)
         else
           (if inBlock st then (analyzeBlock st)\<lparr>inBlock := False\<rparr> else st))"

definition js_Apply :: "string \<Rightarrow> error + CommentedCodeFinding option" where
  "js_Apply content =
     (case foldE (jsBlockStep content)
             \<lparr>commentedBytes = 0, commentedLines = 0, largestBlock = 0, ccIssues = [],
              currentBlock = [], inBlock = False, blockStartLine = 0\<rparr>
             (FindAllStringSubmatchIndex multiLineRegex content) of
        Inl e \<Rightarrow> Inl e
      | Inr st \<Rightarrow>
          (let lines = SplitLines content;
               st = foldl jsLineStep st (enumerate 0 lines);
               st = (if inBlock st then analyzeBlock st else st)
           in Inr (if commentedBytes st = 0 then None
                   else Some \<lparr>CommentedBytes = commentedBytes st, CommentedLines = commentedLines st,
                              LargestBlock = largestBlock st, Issues = ccIssues st\<rparr>)))"

text \<open>
  For the statements below: the candidates that the two passes count. A block candidate
  is the span of a match whose group text is code; a line candidate is a maximal run of
  line comments, as its first line number and its text, when that text is code.
\<close>

fun jsBlockQualifies :: "string \<Rightarrow> nat \<times> nat \<times> (nat \<times> nat) option \<Rightarrow> bool" where
  "jsBlockQualifies content (a, b, None) = False"
| "jsBlockQualifies content (a, b, Some (c, d)) = isCode (slice content c d)"

fun runIsCode :: "nat \<times> string \<Rightarrow> bool" where
  "runIsCode (s, t) = isCode t"

definition jsBlockCandidates :: "string \<Rightarrow> (nat \<times> nat) list" where
  "jsBlockCandidates content =
     map (\<lambda>(a, b, g). (a, b))
       (filter (jsBlockQualifies content) (FindAllStringSubmatchIndex multiLineRegex content))"

fun lineRuns :: "(nat \<times> string) option \<Rightarrow> (nat \<times> string) list \<Rightarrow> (nat \<times> string) list" where
  "lineRuns cur [] = (case cur of None \<Rightarrow> [] | Some r \<Rightarrow> [r])"
| "lineRuns cur ((i, line) # ls) =
     (if HasPrefix (TrimSpace line) ''//''
      then (case cur of
              None \<Rightarrow> lineRuns (Some (i + 1, drop 2 (TrimSpace line))) ls
            | Some (s, t) \<Rightarrow> lineRuns (Some (s, t @ [CHR 0x0A] @ drop 2 (TrimSpace line))) ls)
      else (case cur of
              None \<Rightarrow> lineRuns None ls
            | Some r \<Rightarrow> r # lineRuns None ls))"

definition jsLineCandidates :: "string \<Rightarrow> (nat \<times> string) list" where
  "jsLineCandidates content =
     filter runIsCode (lineRuns None (enumerate 0 (SplitLines content)))"

definition runBytes :: "string \<Rightarrow> nat" where
  "runBytes t = length t + (countNL t + 1) * 2"

fun hasGroup :: "re \<Rightarrow> bool" where
  "hasGroup (Group r) = True"
| "hasGroup (Seq r1 r2) = (hasGroup r1 \<or> hasGroup r2)"
| "hasGroup (Alt r1 r2) = (hasGroup r1 \<or> hasGroup r2)"
| "hasGroup (Star r) = hasGroup r"
| "hasGroup (LazyStar r) = hasGroup r"
| "hasGroup r = False"

definition jsIssue :: "nat \<Rightarrow> nat \<Rightarrow> Issue" where
  "jsIssue bytes line =
     \<lparr>Path = [], Description = ''Commented out JS code block ('' @ showNat bytes @ '' bytes)'',
      Line = line, Severity = ''minor''\<rparr>"

type_synonym acc4 = "nat \<times> nat \<times> nat \<times> Issue list"

definition accOf :: "jsState \<Rightarrow> acc4" where
  "accOf st = (commentedBytes st, commentedLines st, largestBlock st, ccIssues st)"

definition addRun :: "acc4 \<Rightarrow> nat \<times> string \<Rightarrow> acc4" where
  "addRun = (\<lambda>(cb, cl, lb, iss) (s, t).
     if isCode t
     then (cb + runBytes t, cl + (countNL t + 1), (if runBytes t > lb then runBytes t else lb),
           iss @ [jsIssue (runBytes t) s])
     else (cb, cl, lb, iss))"

text \<open>
  The claim as the specification states it: a block candidate and a line candidate
  never share a byte of the content. The bytes of a line run are those of its lines,
  from the start of the first to the end of the last.
\<close>

definition lineOffset :: "string list \<Rightarrow> nat \<Rightarrow> nat" where
  "lineOffset ls k = sum_list (map (\<lambda>l. length l + 1) (take k ls))"

definition runSpan :: "string \<Rightarrow> nat \<times> string \<Rightarrow> nat \<times> nat" where
  "runSpan content = (\<lambda>(s, t).
     (let ls = SplitLines content; last = s + countNL t - 1
      in (lineOffset ls (s - 1), lineOffset ls last + length (ls ! last))))"

definition spec_candidatesDisjoint :: "string \<Rightarrow> bool" where
  "spec_candidatesDisjoint content =
     (\<forall>(a, b)\<in>set (jsBlockCandidates content). \<forall>r\<in>set (jsLineCandidates content).
        b \<le> fst (runSpan content r) \<or> snd (runSpan content r) \<le> a)"

definition runsOrdered :: "(nat \<times> string) list \<Rightarrow> bool" where
  "runsOrdered rs = sorted_wrt (\<lambda>(s, t) (s', t'). s + countNL t < s') rs"

subsection \<open>Properties of the JS rule\<close>

lemma findFrom_ends:
  "findFrom r pre rest = Some (i, e) \<Longrightarrow> \<exists>s. e \<in> set (ends r (s, None))"
proof (induction rest arbitrary: pre)
  case Nil
  then have "e \<in> set (ends r ((pre, []), None))" by (auto split: list.splits)
  then show ?case ..
next
  case (Cons c cs)
  show ?case
  proof (cases "ends r ((pre, c # cs), None)")
    case Nil
    with Cons show ?thesis by simp
  next
    case (Cons e' es)
    with Cons.prems have "e \<in> set (ends r ((pre, c # cs), None))" by auto
    then show ?thesis ..
  qed
qed

lemma allMatches_groups:
  "\<forall>m\<in>set (allMatches r p pre rest). \<exists>s e. e \<in> set (ends r (s, None)) \<and> snd (snd m) = snd e"
proof (induction r p pre rest rule: allMatches.induct)
  case (1 r p pre rest)
  show ?case
  proof (cases "findFrom r pre rest")
    case None
    then show ?thesis by (simp add: allMatches.simps [of r p pre rest])
  next
    case (Some ie)
    obtain i e where ie: "ie = (i, e)" by (cases ie)
    from findFrom_ends [OF Some [unfolded ie]]
    have this_ok: "\<exists>s e'. e' \<in> set (ends r (s, None)) \<and> snd e = snd e'" by blast
    show ?thesis
    proof (cases "length (snd (fst e)) < length rest")
      case True
      from "1.IH"(1) [OF Some ie [symmetric] True] this_ok show ?thesis
        by (subst allMatches.simps) (simp add: Some ie True)
    next
      case False
      have eq: "allMatches r p pre rest =
          (if Some i = p then [] else [(i, pos (fst e), snd e)]) @
          (case rest of [] \<Rightarrow> [] | c # cs \<Rightarrow> allMatches r (Some (pos (fst e))) (c # pre) cs)"
        by (subst allMatches.simps) (simp add: Some ie False)
      show ?thesis
      proof (cases rest)
        case Nil
        with this_ok show ?thesis unfolding eq by auto
      next
        case (Cons c cs)
        from "1.IH"(2) [OF Some ie [symmetric] False Cons] this_ok show ?thesis
          unfolding Cons eq [unfolded Cons list.case] by auto
      qed
    qed
  qed
qed

lemma ends_keeps_group:
  "\<not> hasGroup r \<Longrightarrow> t \<in> set (ends r s) \<Longrightarrow> snd t = snd s"
proof (induction r s arbitrary: t rule: ends.induct)
  case (1 p s)
  then show ?case by (auto simp: ends.simps split: list.splits if_splits)
next
  case (2 s)
  then show ?case by (simp add: ends.simps)
next
  case (3 s)
  then show ?case by (simp add: ends.simps split: if_splits)
next
  case (4 r1 r2 s)
  from "4.prems" obtain m where m: "m \<in> set (ends r1 s)" and t: "t \<in> set (ends r2 m)"
    unfolding ends.simps by auto
  from "4.IH"(1) [OF _ m] "4.IH"(2) [OF m _ t] "4.prems"(1) show ?case by simp
next
  case (5 r1 r2 s)
  from "5.prems" consider "t \<in> set (ends r1 s)" | "t \<in> set (ends r2 s)"
    unfolding ends.simps by auto
  then show ?case using "5.IH" "5.prems"(1) by cases auto
next
  case (6 r s)
  show ?case
  proof (cases "t = s")
    case True
    then show ?thesis by simp
  next
    case False
    with "6.prems" obtain m where m: "m \<in> set (ends r s)" "ahead m s"
      and t: "t \<in> set (ends (Star r) m)" unfolding ends.simps(6) [of r s] by auto
    from m have f: "m \<in> set (filter (\<lambda>t. ahead t s) (ends r s))" by simp
    from "6.IH"(1) [OF _ m(1)] "6.IH"(2) [OF f _ t] "6.prems"(1) show ?thesis by simp
  qed
next
  case (7 r s)
  show ?case
  proof (cases "t = s")
    case True
    then show ?thesis by simp
  next
    case False
    with "7.prems" obtain m where m: "m \<in> set (ends r s)" "ahead m s"
      and t: "t \<in> set (ends (LazyStar r) m)" unfolding ends.simps(7) [of r s] by auto
    from m have f: "m \<in> set (filter (\<lambda>t. ahead t s) (ends r s))" by simp
    from "7.IH"(1) [OF _ m(1)] "7.IH"(2) [OF f _ t] "7.prems"(1) show ?thesis by simp
  qed
next
  case (8 r s)
  then show ?case by simp
qed

lemma hasGroup_lit: "\<not> hasGroup (lit x)"
  by (induction x) (auto simp: lit_def)

lemma multiLine_group:
  assumes "m \<in> set (FindAllStringSubmatchIndex multiLineRegex content)"
  shows "snd (snd m) \<noteq> None"
proof -
  from assms allMatches_groups [of multiLineRegex None "[]" content]
  obtain s e where e: "e \<in> set (ends multiLineRegex (s, None))" and g: "snd (snd m) = snd e"
    unfolding FindAllStringSubmatchIndex_def by blast
  from e obtain m1 m2 where "m2 \<in> set (ends (Group (LazyStar anyChar)) m1)"
    and "e \<in> set (ends (lit ''*/'') m2)"
    unfolding multiLineRegex_def ends.simps(4) by auto
  then have "snd e = snd m2" "snd m2 \<noteq> None"
    using ends_keeps_group [OF hasGroup_lit, of e "''*/''" m2]
    by (auto simp: ends.simps(8))
  with g show ?thesis by simp
qed

lemma jsBlock_fold:
  assumes "\<forall>m\<in>set ms. snd (snd m) \<noteq> None"
  shows "\<exists>st'. foldE (jsBlockStep content) st ms = Inr st'
     \<and> commentedBytes st' = commentedBytes st +
          sum_list (map (\<lambda>(a, b, g). length (slice content a b)) (filter (jsBlockQualifies content) ms))
     \<and> ccIssues st' = ccIssues st @
          map (\<lambda>(a, b, g). jsIssue (length (slice content a b)) (countNL (slice content 0 a) + 1))
            (filter (jsBlockQualifies content) ms)
     \<and> inBlock st' = inBlock st"
  using assms
proof (induction ms arbitrary: st)
  case Nil
  then show ?case by simp
next
  case (Cons m ms)
  obtain a b g where m: "m = (a, b, g)" by (cases m)
  with Cons.prems obtain c d where g: "g = Some (c, d)" by auto
  from Cons.prems have rest: "\<forall>m\<in>set ms. snd (snd m) \<noteq> None" by simp
  show ?case
  proof (cases "isCode (slice content c d)")
    case True
    let ?st1 = "st\<lparr>commentedBytes := commentedBytes st + length (slice content a b),
        commentedLines := commentedLines st + (countNL (slice content a b) + 1),
        largestBlock := (if length (slice content a b) > largestBlock st
                         then length (slice content a b) else largestBlock st),
        ccIssues := ccIssues st @
          [jsIssue (length (slice content a b)) (countNL (slice content 0 a) + 1)]\<rparr>"
    have step: "jsBlockStep content st (a, b, Some (c, d)) = Inr ?st1"
      using True by (simp add: Let_def jsIssue_def)
    from Cons.IH [OF rest, of ?st1] obtain st' where
      "foldE (jsBlockStep content) ?st1 ms = Inr st'"
      "commentedBytes st' = commentedBytes ?st1 +
          sum_list (map (\<lambda>(a, b, g). length (slice content a b)) (filter (jsBlockQualifies content) ms))"
      "ccIssues st' = ccIssues ?st1 @
          map (\<lambda>(a, b, g). jsIssue (length (slice content a b)) (countNL (slice content 0 a) + 1))
            (filter (jsBlockQualifies content) ms)"
      "inBlock st' = inBlock ?st1" by blast
    then show ?thesis
      using True by (simp add: step m g del: jsBlockStep.simps)
  next
    case False
    have step: "jsBlockStep content st (a, b, Some (c, d)) = Inr st"
      using False by (simp add: Let_def)
    from Cons.IH [OF rest, of st] show ?thesis
      using False by (simp add: step m g del: jsBlockStep.simps)
  qed
qed

lemma accOf_analyzeBlock:
  "accOf (analyzeBlock st) = addRun (accOf st) (blockStartLine st, currentBlock st)"
  by (simp add: accOf_def analyzeBlock_def addRun_def Let_def runBytes_def jsIssue_def)

lemma addRun_cong:
  "accOf a = accOf b \<Longrightarrow> foldl addRun (accOf a) rs = foldl addRun (accOf b) rs"
  by simp

lemma line_refine:
  "accOf (let st' = foldl jsLineStep st ls in if inBlock st' then analyzeBlock st' else st') =
     foldl addRun (accOf st)
       (lineRuns (if inBlock st then Some (blockStartLine st, currentBlock st) else None) ls)"
proof (induction ls arbitrary: st)
  case Nil
  then show ?case by (simp add: accOf_analyzeBlock)
next
  case (Cons l ls)
  obtain i line where l: "l = (i, line)" by (cases l)
  show ?case
  proof (cases "HasPrefix (TrimSpace line) ''//''")
    case True
    show ?thesis
    proof (cases "inBlock st")
      case True
      let ?st1 = "st\<lparr>currentBlock := currentBlock st @ [CHR 0x0A] @ drop 2 (TrimSpace line)\<rparr>"
      have "jsLineStep st (i, line) = ?st1"
        using True \<open>HasPrefix (TrimSpace line) ''//''\<close> by (simp add: Let_def)
      with Cons.IH [of ?st1] True \<open>HasPrefix (TrimSpace line) ''//''\<close> show ?thesis
        by (simp add: l accOf_def)
    next
      case False
      let ?st1 = "st\<lparr>inBlock := True, blockStartLine := i + 1, currentBlock := drop 2 (TrimSpace line)\<rparr>"
      have "jsLineStep st (i, line) = ?st1"
        using False \<open>HasPrefix (TrimSpace line) ''//''\<close> by (simp add: Let_def)
      with Cons.IH [of ?st1] False \<open>HasPrefix (TrimSpace line) ''//''\<close> show ?thesis
        by (simp add: l accOf_def)
    qed
  next
    case False
    show ?thesis
    proof (cases "inBlock st")
      case True
      let ?st1 = "(analyzeBlock st)\<lparr>inBlock := False\<rparr>"
      have s: "jsLineStep st (i, line) = ?st1"
        using True False by (simp add: Let_def)
      have a: "accOf ?st1 = addRun (accOf st) (blockStartLine st, currentBlock st)"
        using accOf_analyzeBlock [of st] by (simp add: accOf_def)
      from Cons.IH [of ?st1] show ?thesis
        using True False by (simp add: l s a)
    next
      case False
      have "jsLineStep st (i, line) = st"
        using False \<open>\<not> HasPrefix (TrimSpace line) ''//''\<close> by (simp add: Let_def)
      with Cons.IH [of st] False \<open>\<not> HasPrefix (TrimSpace line) ''//''\<close> show ?thesis
        by (simp add: l)
    qed
  qed
qed

lemma addRun_fold:
  "fst (foldl addRun acc rs) =
     fst acc + sum_list (map (\<lambda>(s, t). runBytes t) (filter runIsCode rs))
   \<and> snd (snd (snd (foldl addRun acc rs))) =
     snd (snd (snd acc)) @ map (\<lambda>(s, t). jsIssue (runBytes t) s) (filter runIsCode rs)"
  by (induction rs arbitrary: acc) (auto simp: addRun_def split: prod.splits)

lemma stripTokens_set: "set (stripTokens ws s) \<subseteq> set s"
proof (induction ws s rule: stripTokens.induct)
  case (1 ws s)
  show ?case
  proof (cases "find (\<lambda>w. w \<noteq> [] \<and> HasPrefix s w) ws")
    case None
    then show ?thesis by simp
  next
    case (Some w)
    with "1.IH" [OF Some] set_drop_subset [of "length w" s] show ?thesis by auto
  qed
qed

lemma TrimSpace_set: "set (TrimSpace s) \<subseteq> set s"
  using stripTokens_set [of "map rev whiteSpace" "rev (stripTokens whiteSpace s)"]
    stripTokens_set [of whiteSpace s]
  by (auto simp: TrimSpace_def)

lemma splitAcc_noNL:
  "CHR 0x0A \<notin> set acc \<Longrightarrow> l \<in> set (splitAcc acc cs) \<Longrightarrow> CHR 0x0A \<notin> set l"
proof (induction cs arbitrary: acc)
  case Nil
  then show ?case by simp
next
  case (Cons c cs)
  show ?case
  proof (cases "c = CHR 0x0A")
    case True
    with Cons.prems have "l = rev acc \<or> l \<in> set (splitAcc [] cs)" by simp
    with Cons.prems(1) Cons.IH [of "[]"] show ?thesis by auto
  next
    case False
    with Cons.prems have "l \<in> set (splitAcc (c # acc) cs)" by simp
    with Cons.prems(1) False Cons.IH [of "c # acc"] show ?thesis by auto
  qed
qed

lemma countNL_comment: "CHR 0x0A \<notin> set l \<Longrightarrow> countNL (drop 2 (TrimSpace l)) = 0"
proof -
  assume "CHR 0x0A \<notin> set l"
  with TrimSpace_set [of l] set_drop_subset [of 2 "TrimSpace l"]
  have "CHR 0x0A \<notin> set (drop 2 (TrimSpace l))" by blast
  then show ?thesis by (auto simp: countNL_def filter_empty_conv)
qed

lemma countNL_append: "countNL (a @ b) = countNL a + countNL b"
  by (simp add: countNL_def)

lemma lineRuns_sorted:
  assumes "\<forall>l\<in>set lines. CHR 0x0A \<notin> set l"
    and "case cur of None \<Rightarrow> True | Some (s, t) \<Rightarrow> s + countNL t = i"
  shows "runsOrdered (lineRuns cur (enumerate i lines))
     \<and> (\<forall>(s', t')\<in>set (lineRuns cur (enumerate i lines)).
           case cur of None \<Rightarrow> i < s' | Some (s, t) \<Rightarrow> s \<le> s')"
  using assms
proof (induction lines arbitrary: cur i)
  case Nil
  then show ?case by (auto simp: runsOrdered_def split: option.splits)
next
  case (Cons l ls)
  from Cons.prems have nl: "CHR 0x0A \<notin> set l" and rest: "\<forall>l\<in>set ls. CHR 0x0A \<notin> set l"
    by auto
  have z: "countNL (drop 2 (TrimSpace l)) = 0" using nl by (rule countNL_comment)
  show ?case
  proof (cases "HasPrefix (TrimSpace l) ''//''")
    case True
    show ?thesis
    proof (cases cur)
      case None
      from Cons.IH [where cur = "Some (i + 1, drop 2 (TrimSpace l))" and i = "Suc i", OF rest] z
      show ?thesis using True None by auto
    next
      case (Some c)
      obtain s t where c: "c = (s, t)" by (cases c)
      with Cons.prems Some have e: "s + countNL t = i" by simp
      from Cons.IH [where cur = "Some (s, t @ [CHR 0x0A] @ drop 2 (TrimSpace l))" and i = "Suc i", OF rest] z e
      show ?thesis using True Some c by (auto simp: countNL_append countNL_def)
    qed
  next
    case False
    from Cons.IH [where cur = None and i = "Suc i", OF rest]
    have ih: "runsOrdered (lineRuns None (enumerate (Suc i) ls))"
      "\<forall>(s', t')\<in>set (lineRuns None (enumerate (Suc i) ls)). Suc i < s'" by auto
    show ?thesis
    proof (cases cur)
      case None
      with ih False show ?thesis by auto
    next
      case (Some c)
      obtain s t where c: "c = (s, t)" by (cases c)
      with Cons.prems Some have e: "s + countNL t = i" by simp
      with ih False Some c show ?thesis by (auto simp: runsOrdered_def)
    qed
  qed
qed

lemma jsLineCandidates_sorted: "runsOrdered (jsLineCandidates content)"
proof -
  have "\<forall>l\<in>set (SplitLines content). CHR 0x0A \<notin> set l"
    unfolding SplitLines_def using splitAcc_noNL [of "[]" _ content] by auto
  from lineRuns_sorted [where cur = None and i = 0, OF this]
  have "runsOrdered (lineRuns None (enumerate 0 (SplitLines content)))" by simp
  then show ?thesis
    unfolding jsLineCandidates_def runsOrdered_def by (rule sorted_wrt_filter)
qed

lemma multiLine_shape:
  assumes "m \<in> lang multiLineRegex"
  shows "\<exists>w. m = ''/*'' @ w @ ''*/''"
  using assms unfolding multiLineRegex_def by (auto simp: lang_lit)

lemma multiLine_match:
  assumes "(a, b, g) \<in> set (FindAllStringSubmatchIndex multiLineRegex content)"
  shows "a < b \<and> b \<le> length content \<and> length (slice content a b) = b - a"
proof -
  from assms allMatches_props [of multiLineRegex None "[]" content]
  have "matchOK multiLineRegex content 0 (a, b, g)"
    unfolding FindAllStringSubmatchIndex_def by auto
  then have ab: "a \<le> b" "b \<le> length content" and l: "slice content a b \<in> lang multiLineRegex"
    by (simp_all add: matchOK_def)
  from multiLine_shape [OF l] obtain w where "slice content a b = ''/*'' @ w @ ''*/''" ..
  moreover have "length (slice content a b) = b - a" using ab by (rule slice_length)
  ultimately show ?thesis using ab by auto
qed

lemma jsBlockCandidates_sorted:
  "sorted_wrt (\<lambda>(a, b) (c, d). b \<le> c) (jsBlockCandidates content)"
proof -
  have "sorted_wrt (\<lambda>x y. fst (snd x) \<le> fst y) (FindAllStringSubmatchIndex multiLineRegex content)"
    unfolding FindAllStringSubmatchIndex_def
    using allMatches_props [of multiLineRegex None "[]" content] by simp
  then have "sorted_wrt (\<lambda>x y. fst (snd x) \<le> fst y)
      (filter (jsBlockQualifies content) (FindAllStringSubmatchIndex multiLineRegex content))"
    by (rule sorted_wrt_filter)
  then show ?thesis
    unfolding jsBlockCandidates_def
    by (simp add: sorted_wrt_map split_def)
qed

lemma jsBlockCandidates_bounds:
  "(a, b) \<in> set (jsBlockCandidates content) \<Longrightarrow> a < b \<and> b \<le> length content"
  using multiLine_match [of a b _ content] by (auto simp: jsBlockCandidates_def)

lemma runBytes_pos: "0 < runBytes t"
  by (simp add: runBytes_def)

lemma js_Apply_total:
  "\<exists>r. js_Apply content = Inr r
     \<and> (r = None \<longleftrightarrow> jsBlockCandidates content = [] \<and> jsLineCandidates content = [])
     \<and> (case r of None \<Rightarrow> 0 | Some f \<Rightarrow> CommentedBytes f) =
         sum_list (map (\<lambda>(a, b). b - a) (jsBlockCandidates content))
         + sum_list (map (\<lambda>(s, t). runBytes t) (jsLineCandidates content))
     \<and> map Line (case r of None \<Rightarrow> [] | Some f \<Rightarrow> Issues f) =
         map (\<lambda>(a, b). countNL (take a content) + 1) (jsBlockCandidates content)
         @ map fst (jsLineCandidates content)"
proof -
  let ?ms = "FindAllStringSubmatchIndex multiLineRegex content"
  let ?q = "filter (jsBlockQualifies content) ?ms"
  let ?st0 = "\<lparr>commentedBytes = 0, commentedLines = 0, largestBlock = 0, ccIssues = [],
        currentBlock = [], inBlock = False, blockStartLine = 0\<rparr>"
  let ?runs = "lineRuns None (enumerate 0 (SplitLines content))"
  have cands: "jsBlockCandidates content = map (\<lambda>(a, b, g). (a, b)) ?q"
    by (simp add: jsBlockCandidates_def)
  have grp: "\<forall>m\<in>set ?ms. snd (snd m) \<noteq> None"
    using multiLine_group by blast
  from jsBlock_fold [OF grp, of content ?st0] obtain st1 where
    f: "foldE (jsBlockStep content) ?st0 ?ms = Inr st1"
    and b1: "commentedBytes st1 = sum_list (map (\<lambda>(a, b, g). length (slice content a b)) ?q)"
    and i1: "ccIssues st1 =
        map (\<lambda>(a, b, g). jsIssue (length (slice content a b)) (countNL (slice content 0 a) + 1)) ?q"
    and n1: "\<not> inBlock st1" by auto
  define st2 where "st2 = (let st' = foldl jsLineStep st1 (enumerate 0 (SplitLines content))
      in if inBlock st' then analyzeBlock st' else st')"
  have acc: "accOf st2 = foldl addRun (accOf st1) ?runs"
    unfolding st2_def
    using line_refine [of st1 "enumerate 0 (SplitLines content)"] n1 by simp
  have bq: "sum_list (map (\<lambda>(a, b, g). length (slice content a b)) ?q) =
      sum_list (map (\<lambda>(a, b). b - a) (jsBlockCandidates content))"
  proof -
    have "map (\<lambda>(a, b, g). length (slice content a b)) ?q =
        map ((\<lambda>(a, b). b - a) \<circ> (\<lambda>(a, b, g). (a, b))) ?q"
      by (rule map_cong) (use multiLine_match [of _ _ _ content] in auto)
    then show ?thesis
      unfolding cands map_map by (simp only:)
  qed
  have b2: "commentedBytes st2 =
      sum_list (map (\<lambda>(a, b). b - a) (jsBlockCandidates content))
      + sum_list (map (\<lambda>(s, t). runBytes t) (jsLineCandidates content))"
  proof -
    have "commentedBytes st2 = fst (accOf st2)" by (simp add: accOf_def)
    also have "\<dots> = fst (foldl addRun (accOf st1) ?runs)" by (simp only: acc)
    also have "\<dots> = fst (accOf st1) + sum_list (map (\<lambda>(s, t). runBytes t) (jsLineCandidates content))"
      using addRun_fold [of "accOf st1" ?runs] by (simp add: jsLineCandidates_def)
    also have "fst (accOf st1) = commentedBytes st1" by (simp add: accOf_def)
    finally show ?thesis using b1 bq by simp
  qed
  have i2: "map Line (ccIssues st2) =
      map (\<lambda>(a, b). countNL (take a content) + 1) (jsBlockCandidates content)
      @ map fst (jsLineCandidates content)"
  proof -
    have "ccIssues st2 = snd (snd (snd (accOf st2)))" by (simp add: accOf_def)
    also have "\<dots> = snd (snd (snd (foldl addRun (accOf st1) ?runs)))" by (simp only: acc)
    also have "\<dots> = snd (snd (snd (accOf st1))) @
        map (\<lambda>(s, t). jsIssue (runBytes t) s) (jsLineCandidates content)"
      using addRun_fold [of "accOf st1" ?runs] by (simp add: jsLineCandidates_def)
    also have "snd (snd (snd (accOf st1))) = ccIssues st1" by (simp add: accOf_def)
    finally have "ccIssues st2 = ccIssues st1 @
        map (\<lambda>(s, t). jsIssue (runBytes t) s) (jsLineCandidates content)" .
    then show ?thesis
      unfolding i1 cands
      by (simp add: jsIssue_def split_def comp_def slice_def)
  qed
  have z: "commentedBytes st2 = 0 \<longleftrightarrow>
      jsBlockCandidates content = [] \<and> jsLineCandidates content = []"
  proof
    assume zero: "commentedBytes st2 = 0"
    have "jsBlockCandidates content = []"
    proof (rule ccontr)
      assume "jsBlockCandidates content \<noteq> []"
      then obtain a b where m: "(a, b) \<in> set (jsBlockCandidates content)"
        by (cases "jsBlockCandidates content") auto
      with jsBlockCandidates_bounds [OF m] zero b2 show False
        by (auto simp: sum_list_eq_0_iff)
    qed
    moreover have "jsLineCandidates content = []"
    proof (rule ccontr)
      assume "jsLineCandidates content \<noteq> []"
      then obtain s t where m: "(s, t) \<in> set (jsLineCandidates content)"
        by (cases "jsLineCandidates content") auto
      with runBytes_pos [of t] zero b2 show False
        by (auto simp: sum_list_eq_0_iff)
    qed
    ultimately show "jsBlockCandidates content = [] \<and> jsLineCandidates content = []" ..
  next
    assume "jsBlockCandidates content = [] \<and> jsLineCandidates content = []"
    with b2 show "commentedBytes st2 = 0" by simp
  qed
  have ap: "js_Apply content =
      Inr (if commentedBytes st2 = 0 then None
           else Some \<lparr>CommentedBytes = commentedBytes st2, CommentedLines = commentedLines st2,
                      LargestBlock = largestBlock st2, Issues = ccIssues st2\<rparr>)"
    by (simp add: js_Apply_def f st2_def Let_def)
  show ?thesis
  proof (cases "commentedBytes st2 = 0")
    case True
    with z b2 ap show ?thesis by auto
  next
    case False
    with z b2 i2 ap show ?thesis by auto
  qed
qed


text \<open>
  C5, as amended. Within each pass the candidates never overlap: the block-comment
  spans lie one after the other in the content, and the runs of line comments cover
  disjoint ranges of lines. The rule never fails, and its byte total counts every block
  candidate and every line candidate exactly once; it does not relate the two kinds, so
  text that is in a block span and in a line run is counted in both.
\<close>

theorem C5_js_candidates_within_pass:
  "sorted_wrt (\<lambda>(a, b) (c, d). b \<le> c) (jsBlockCandidates content)
   \<and> (\<forall>(a, b)\<in>set (jsBlockCandidates content). a < b \<and> b \<le> length content)
   \<and> sorted_wrt (\<lambda>(s, t) (s', t'). s + countNL t < s') (jsLineCandidates content)
   \<and> (\<exists>r. js_Apply content = Inr r
        \<and> (r = None \<longleftrightarrow> jsBlockCandidates content = [] \<and> jsLineCandidates content = [])
        \<and> (case r of None \<Rightarrow> 0 | Some f \<Rightarrow> CommentedBytes f) =
            sum_list (map (\<lambda>(a, b). b - a) (jsBlockCandidates content))
            + sum_list (map (\<lambda>(s, t). runBytes t) (jsLineCandidates content))
        \<and> map Line (case r of None \<Rightarrow> [] | Some f \<Rightarrow> Issues f) =
            map (\<lambda>(a, b). countNL (take a content) + 1) (jsBlockCandidates content)
            @ map fst (jsLineCandidates content))"
proof -
  have b: "\<forall>(a, b)\<in>set (jsBlockCandidates content). a < b \<and> b \<le> length content"
    using jsBlockCandidates_bounds by blast
  from jsBlockCandidates_sorted [of content] b
    jsLineCandidates_sorted [of content, unfolded runsOrdered_def]
    js_Apply_total [of content]
  show ?thesis by blast
qed

theorem C5_js_candidates_within_pass_witness:
  "(0, 8) \<in> set (jsBlockCandidates ''/* x; */\<newline>// y;'')
   \<and> (0::nat) < 8 \<and> 8 \<le> length ''/* x; */\<newline>// y;''
   \<and> (\<exists>r. js_Apply ''/* x; */\<newline>// y;'' = Inr r
        \<and> (case r of None \<Rightarrow> 0 | Some f \<Rightarrow> CommentedBytes f) = 13
        \<and> map Line (case r of None \<Rightarrow> [] | Some f \<Rightarrow> Issues f) = [1, 2])"
proof -
  have bc: "jsBlockCandidates ''/* x; */\<newline>// y;'' = [(0, 8)]"
    by code_simp
  have lc: "jsLineCandidates ''/* x; */\<newline>// y;'' = [(2, '' y;'')]"
    by code_simp
  have rb: "runBytes '' y;'' = 5"
    by code_simp
  from bc have h: "(0, 8) \<in> set (jsBlockCandidates ''/* x; */\<newline>// y;'')"
    by simp
  note c = C5_js_candidates_within_pass [of "''/* x; */\<newline>// y;''"]
  from c h have "case (0::nat, 8::nat) of (a, b) \<Rightarrow> a < b \<and> b \<le> length ''/* x; */\<newline>// y;''"
    by blast
  then have b: "(0::nat) < 8 \<and> 8 \<le> length ''/* x; */\<newline>// y;''"
    by (simp only: prod.case)
  from c obtain r where "js_Apply ''/* x; */\<newline>// y;'' = Inr r"
    and "(case r of None \<Rightarrow> 0 | Some f \<Rightarrow> CommentedBytes f) =
            sum_list (map (\<lambda>(a, b). b - a) (jsBlockCandidates ''/* x; */\<newline>// y;''))
            + sum_list (map (\<lambda>(s, t). runBytes t) (jsLineCandidates ''/* x; */\<newline>// y;''))"
    and "map Line (case r of None \<Rightarrow> [] | Some f \<Rightarrow> Issues f) =
            map (\<lambda>(a, b). countNL (take a ''/* x; */\<newline>// y;'') + 1) (jsBlockCandidates ''/* x; */\<newline>// y;'')
            @ map fst (jsLineCandidates ''/* x; */\<newline>// y;'')"
    by blast
  then have "js_Apply ''/* x; */\<newline>// y;'' = Inr r
        \<and> (case r of None \<Rightarrow> 0 | Some f \<Rightarrow> CommentedBytes f) = 13
        \<and> map Line (case r of None \<Rightarrow> [] | Some f \<Rightarrow> Issues f) = [1, 2]"
    unfolding bc lc by (simp add: rb countNL_def)
  then have ex: "\<exists>r. js_Apply ''/* x; */\<newline>// y;'' = Inr r
        \<and> (case r of None \<Rightarrow> 0 | Some f \<Rightarrow> CommentedBytes f) = 13
        \<and> map Line (case r of None \<Rightarrow> [] | Some f \<Rightarrow> Issues f) = [1, 2]"
    by (rule exI)
  from h b ex show ?thesis by simp
qed

text \<open>
  The claim as stated fails on the one-line file \<open>// /* var x = 1; */\<close>: the block span
  from byte 3 to byte 19 lies inside the line run that is line 1, both are counted, and
  the rule reports 35 commented bytes in a file of 19 bytes.
\<close>

theorem C5_overlap_counterexample:
  "\<not> spec_candidatesDisjoint ''// /* var x = 1; */''
   \<and> jsBlockCandidates ''// /* var x = 1; */'' = [(3, 19)]
   \<and> jsLineCandidates ''// /* var x = 1; */'' = [(1, '' /* var x = 1; */'')]
   \<and> runSpan ''// /* var x = 1; */'' (1, '' /* var x = 1; */'') = (0, 19)
   \<and> js_Apply ''// /* var x = 1; */'' =
       Inr (Some \<lparr>CommentedBytes = 35, CommentedLines = 2, LargestBlock = 19,
                  Issues = [\<lparr>Path = [], Description = ''Commented out JS code block (16 bytes)'',
                             Line = 1, Severity = ''minor''\<rparr>,
                            \<lparr>Path = [], Description = ''Commented out JS code block (19 bytes)'',
                             Line = 1, Severity = ''minor''\<rparr>]\<rparr>)
   \<and> length ''// /* var x = 1; */'' = 19"
proof -
  have a: "\<not> spec_candidatesDisjoint ''// /* var x = 1; */''"
    by code_simp
  have b: "jsBlockCandidates ''// /* var x = 1; */'' = [(3, 19)]"
    by code_simp
  have c: "jsLineCandidates ''// /* var x = 1; */'' = [(1, '' /* var x = 1; */'')]"
    by code_simp
  have d: "runSpan ''// /* var x = 1; */'' (1, '' /* var x = 1; */'') = (0, 19)"
    by code_simp
  have e: "js_Apply ''// /* var x = 1; */'' =
       Inr (Some \<lparr>CommentedBytes = 35, CommentedLines = 2, LargestBlock = 19,
                  Issues = [\<lparr>Path = [], Description = ''Commented out JS code block (16 bytes)'',
                             Line = 1, Severity = ''minor''\<rparr>,
                            \<lparr>Path = [], Description = ''Commented out JS code block (19 bytes)'',
                             Line = 1, Severity = ''minor''\<rparr>]\<rparr>)"
    by code_simp
  have f: "length ''// /* var x = 1; */'' = 19"
    by simp
  from a b c d e f show ?thesis by (intro conjI)
qed


section \<open>The commented-functions rule of the PHP analyzer\<close>

text \<open>
  Character classes of the library: \<open>\s\<close> is \<open>[\t\n\f\r ]\<close> and \<open>\w\<close> is \<open>[0-9A-Za-z_]\<close>.
\<close>

definition reSpace :: "char \<Rightarrow> bool" where
  "reSpace c = (c = CHR 0x09 \<or> c = CHR 0x0A \<or> c = CHR 0x0C \<or> c = CHR 0x0D \<or> c = CHR 0x20)"

definition reWord :: "char \<Rightarrow> bool" where
  "reWord c =
     (let n = (of_char c :: nat)
      in (48 \<le> n \<and> n \<le> 57) \<or> (65 \<le> n \<and> n \<le> 90) \<or> n = 95 \<or> (97 \<le> n \<and> n \<le> 122))"

text \<open>
  The pattern \<open>(?s)/\*.*?\*/\<close>, and the part
  \<open>(?m)(?:^|[\s/]+|[*]+)\s*(?:public|private|protected|static)?\s*function\s+\<close>
  that the two declaration patterns share; \<open>functionRegex\<close> continues with
  \<open>(\w+)\s*\(\<close>, and the pattern built for one function name continues with the quoted
  name, which matches the name literally, and \<open>\s*\(\<close>.
\<close>

definition blockCommentRegex :: re where
  "blockCommentRegex = Seq (lit ''/*'') (Seq (LazyStar anyChar) (lit ''*/''))"

definition declarationStart :: re where
  "declarationStart =
     Seq (Alt Bol (Alt (Plus (Sym (\<lambda>c. reSpace c \<or> c = CHR ''/''))) (Plus (Sym (\<lambda>c. c = CHR ''*'')))))
       (Seq (Star (Sym reSpace))
         (Seq (Opt (Alt (lit ''public'') (Alt (lit ''private'') (Alt (lit ''protected'') (lit ''static'')))))
           (Seq (Star (Sym reSpace))
             (Seq (lit ''function'') (Plus (Sym reSpace))))))"

definition functionRegex :: re where
  "functionRegex =
     Seq declarationStart (Seq (Group (Plus (Sym reWord))) (Seq (Star (Sym reSpace)) (lit ''('')))"

definition funcRegex :: "string \<Rightarrow> re" where
  "funcRegex funcName =
     Seq declarationStart (Seq (lit funcName) (Seq (Star (Sym reSpace)) (lit ''('')))"

text \<open>
  \<open>ReplaceAllString\<close> with a replacement that has no \<open>$\<close>: the text between the matches
  is kept, and every match is replaced, except an empty match right after the previous
  match.
\<close>

function replaceAll :: "re \<Rightarrow> string \<Rightarrow> string \<Rightarrow> nat \<Rightarrow> string \<Rightarrow> string \<Rightarrow> string" where
  "replaceAll r repl src lastMatchEnd pre rest =
     (case findFrom r pre rest of
        None \<Rightarrow> slice src lastMatchEnd (length src)
      | Some (start, e) \<Rightarrow>
          slice src lastMatchEnd start @
          (if pos (fst e) > lastMatchEnd \<or> start = 0 then repl else []) @
          (if length (snd (fst e)) < length rest
           then replaceAll r repl src (pos (fst e)) (fst (fst e)) (snd (fst e))
           else (case rest of
                   [] \<Rightarrow> slice src (pos (fst e)) (length src)
                 | c # cs \<Rightarrow> replaceAll r repl src (pos (fst e)) (c # pre) cs)))"
  by pat_completeness auto
termination
  by (relation "measure (\<lambda>(r, repl, src, l, pre, rest). length rest)") auto

declare replaceAll.simps [simp del]

definition ReplaceAllString :: "re \<Rightarrow> string \<Rightarrow> string \<Rightarrow> string" where
  "ReplaceAllString r src repl = replaceAll r repl src 0 [] src"

fun Join :: "string list \<Rightarrow> string \<Rightarrow> string" where
  "Join [] sep = []"
| "Join [x] sep = x"
| "Join (x # y # ys) sep = x @ sep @ Join (y # ys) sep"

fun cutLineComment :: "string \<Rightarrow> string" where
  "cutLineComment line = (case Index line ''//'' of None \<Rightarrow> line | Some idx \<Rightarrow> take idx line)"

definition removePHPComments :: "string \<Rightarrow> string" where
  "removePHPComments code =
     (let code = ReplaceAllString blockCommentRegex code [];
          lines = SplitLines code;
          cleanLines = map cutLineComment lines
      in Join cleanLines [CHR 0x0A])"

fun submatch :: "string \<Rightarrow> nat \<times> nat \<times> (nat \<times> nat) option \<Rightarrow> string" where
  "submatch s (a, b, None) = []"
| "submatch s (a, b, Some (c, d)) = slice s c d"

definition findPHPFunctions :: "string \<Rightarrow> string list" where
  "findPHPFunctions code =
     filter (\<lambda>funcName. funcName \<noteq> ''__construct'' \<and> funcName \<noteq> ''__destruct'')
       (map (submatch code) (FindAllStringSubmatchIndex functionRegex code))"

definition difference :: "string list \<Rightarrow> string list \<Rightarrow> string list" where
  "difference a b =
     (let mb = foldl (\<lambda>mb x. mb(x := True)) (\<lambda>x. False) b
      in filter (\<lambda>x. \<not> mb x) a)"

record CommentedFunctionsFinding =
  cf_AllFunctions :: "string list"
  cf_CommentedList :: "string list"
  cf_Issues :: "Issue list"

definition functionIssue :: "string \<Rightarrow> string \<Rightarrow> Issue" where
  "functionIssue content funcName =
     (let loc = FindStringIndex (funcRegex funcName) content;
          line = (case loc of None \<Rightarrow> 0 | Some (a, b) \<Rightarrow> countNL (slice content 0 a) + 1)
      in \<lparr>Path = [], Description = ''Commented out PHP function: '' @ funcName,
          Line = line, Severity = ''major''\<rparr>)"

definition cf_Apply :: "string \<Rightarrow> CommentedFunctionsFinding option" where
  "cf_Apply content =
     (let cleanCode = removePHPComments content;
          allFunctions = findPHPFunctions content;
          activeFunctions = findPHPFunctions cleanCode;
          commentedFunctions = difference allFunctions activeFunctions
      in if length commentedFunctions = 0 then None
         else Some \<lparr>cf_AllFunctions = allFunctions, cf_CommentedList = commentedFunctions,
                    cf_Issues = map (functionIssue content) commentedFunctions\<rparr>)"

text \<open>
  \<open>PHPAnalyzer.analyzeFile\<close>. Its arguments are the parser, the path, and what
  \<open>os.ReadFile\<close> gives: \<open>None\<close> on an error, otherwise the content. The ratio is the
  quotient of the two counts as a real number.
\<close>

definition setPath :: "string \<Rightarrow> Issue \<Rightarrow> Issue" where
  "setPath path i = i\<lparr>Path := path\<rparr>"

definition php_analyzeFile ::
  "(string \<Rightarrow> node option) \<Rightarrow> string \<Rightarrow> string option \<Rightarrow> PHPFileAnalysis option" where
  "php_analyzeFile parse path readFile =
     (case readFile of
        None \<Rightarrow> None
      | Some content \<Rightarrow>
          (let (analysis, allIssues) =
                 (case cf_Apply content of
                    None \<Rightarrow> (None, [])
                  | Some result \<Rightarrow>
                      (let totalBytes = length content;
                           commentedBytes = length (cf_CommentedList result) * 20;
                           ratio =
                             (if length (cf_AllFunctions result) > 0
                              then real (length (cf_CommentedList result))
                                     / real (length (cf_AllFunctions result)) * 100
                              else 0)
                       in (Some \<lparr>php_Path = path,
                                  TotalFunctions = length (cf_AllFunctions result),
                                  CommentedFunctions = length (cf_CommentedList result),
                                  FunctionList = cf_AllFunctions result,
                                  CommentedList = cf_CommentedList result,
                                  php_CommentRatio = ratio,
                                  php_TotalBytes = totalBytes,
                                  php_CommentedBytes = commentedBytes,
                                  php_Issues = [],
                                  CatchBlocksMissingReport = 0,
                                  CatchBlocksMisplacedReport = 0\<rparr>,
                           map (setPath path) (cf_Issues result))));
               (catchMissing, catchMisplaced, allIssues) =
                 (if Contains path ''app/''
                  then (case lcb_Apply parse content of
                          None \<Rightarrow> (0, 0, allIssues)
                        | Some result \<Rightarrow>
                            (MissingReport result, MisplacedReport result,
                             allIssues @ map (setPath path) (lc_Issues result)))
                  else (0, 0, allIssues))
           in if analysis = None \<and> length allIssues = 0 then None
              else
                (let analysis =
                       (case analysis of
                          Some a \<Rightarrow> a
                        | None \<Rightarrow>
                            \<lparr>php_Path = path, TotalFunctions = 0, CommentedFunctions = 0,
                             FunctionList = [], CommentedList = [], php_CommentRatio = 0,
                             php_TotalBytes = length content, php_CommentedBytes = 0,
                             php_Issues = [], CatchBlocksMissingReport = 0,
                             CatchBlocksMisplacedReport = 0\<rparr>)
                 in Some (analysis\<lparr>CatchBlocksMissingReport := catchMissing,
                                     CatchBlocksMisplacedReport := catchMisplaced,
                                     php_Issues := allIssues\<rparr>))))"

text \<open>
  The threshold gate as the specification states it: a retained file has at least the
  minimum number of commented functions and, when a minimum ratio is configured, at
  least that ratio, unless its findings came solely from the catch-block rule.
\<close>

definition spec_solelyCatch :: "PHPFileAnalysis \<Rightarrow> bool" where
  "spec_solelyCatch a =
     (CommentedFunctions a = 0 \<and> CatchBlocksMissingReport a + CatchBlocksMisplacedReport a > 0)"

definition spec_passesGate :: "Config \<Rightarrow> PHPFileAnalysis \<Rightarrow> bool" where
  "spec_passesGate config a =
     ((int (CommentedFunctions a) \<ge> MinValue config
        \<and> (if MinRatio config > 0 then php_CommentRatio a \<ge> MinRatio config else True))
      \<or> spec_solelyCatch a)"

text \<open>
  Example inputs: a file under \<open>app/\<close> with a commented-out function on line 2 and,
  on line 3, a catch clause that does not call \<open>report\<close>; the syntax tree of that file;
  a configuration that asks for at least 5 commented functions; and what \<open>analyzeFile\<close>
  returns for the file (the declaration pattern matches from the newline before the
  comment, so the first issue carries line 1).
\<close>

definition mixedContent :: string where
  "mixedContent = ''<?php\<newline>// function oldMethod() {}\<newline>try { f(); } catch (E $e) { }''"

definition mixedTree :: node where
  "mixedTree =
     Other [Other [Other [Expression (FunctionCall (Name [NamePart ''f'']) [])],
                   Catch (Some 3) [Name [NamePart ''E'']] (Other []) []]]"

definition strictConfig :: Config where
  "strictConfig =
     \<lparr>RootDir = ''.'', TopN = 100, MinValue = 5, MinRatio = 0, SortBy = ''ratio'',
      OutputFile = [], ExcludePaths = []\<rparr>"

definition mixedAnalysis :: PHPFileAnalysis where
  "mixedAnalysis =
     \<lparr>php_Path = ''app/a.php'', TotalFunctions = 1, CommentedFunctions = 1,
      FunctionList = [''oldMethod''], CommentedList = [''oldMethod''], php_CommentRatio = 100,
      php_TotalBytes = 62, php_CommentedBytes = 20,
      php_Issues =
        [\<lparr>Path = ''app/a.php'', Description = ''Commented out PHP function: oldMethod'',
          Line = 1, Severity = ''major''\<rparr>,
         \<lparr>Path = ''app/a.php'',
          Description = ''Critical: Catch block missing report() call in Laravel app file'',
          Line = 3, Severity = ''critical''\<rparr>],
      CatchBlocksMissingReport = 1, CatchBlocksMisplacedReport = 0\<rparr>"

text \<open>
  For the statements below. The comment-stripped copy as the specification words it,
  "all block comments stripped and all line-comment suffixes truncated", written as two
  scans over the characters, without the pattern matcher: the first drops every span
  from a \<open>/*\<close> to the first \<open>*/\<close> after it, the second drops, on every line, the text from the
  first \<open>//\<close> on.
\<close>

function spec_stripBlocks :: "string \<Rightarrow> string" where
  "spec_stripBlocks [] = []"
| "spec_stripBlocks (c # cs) =
     (if HasPrefix (c # cs) ''/*''
      then (case Index (drop 2 (c # cs)) ''*/'' of
              None \<Rightarrow> c # spec_stripBlocks cs
            | Some i \<Rightarrow> spec_stripBlocks (drop (2 + i + 2) (c # cs)))
      else c # spec_stripBlocks cs)"
  by pat_completeness auto
termination
  by (relation "measure length") auto

declare spec_stripBlocks.simps [simp del]

fun spec_cutLines :: "bool \<Rightarrow> string \<Rightarrow> string" where
  "spec_cutLines inComment [] = []"
| "spec_cutLines inComment (c # cs) =
     (if c = CHR 0x0A then c # spec_cutLines False cs
      else if inComment \<or> HasPrefix (c # cs) ''//'' then spec_cutLines True cs
      else c # spec_cutLines False cs)"

definition spec_cleaned :: "string \<Rightarrow> string" where
  "spec_cleaned content = spec_cutLines False (spec_stripBlocks content)"

text \<open>
  A text declares a name when \<open>function\<close>, white space, the name, optional white space and
  an open parenthesis occur in it in a row.
\<close>

definition declaredHere :: "string \<Rightarrow> string \<Rightarrow> bool" where
  "declaredHere name text =
     (HasPrefix text ''function'' \<and>
      (let afterKeyword = drop 8 text;
           afterSpace = dropWhile reSpace afterKeyword
       in length afterSpace < length afterKeyword
          \<and> HasPrefix afterSpace name
          \<and> HasPrefix (dropWhile reSpace (drop (length name) afterSpace)) ''(''))"

fun spec_declares :: "string \<Rightarrow> string \<Rightarrow> bool" where
  "spec_declares [] name = False"
| "spec_declares (c # cs) name = (declaredHere name (c # cs) \<or> spec_declares cs name)"

text \<open>
  The text of a PHP file outside its comments: a comment is \<open>/* ... */\<close>, or runs from \<open>//\<close>
  or \<open>#\<close> to the end of the line.
\<close>

datatype lexMode = InCode | InLineComment | InBlockComment

fun spec_lex :: "lexMode \<Rightarrow> string \<Rightarrow> string" where
  "spec_lex m [] = []"
| "spec_lex InCode (c # cs) =
     (if HasPrefix (c # cs) ''/*'' then spec_lex InBlockComment (drop 1 cs)
      else if HasPrefix (c # cs) ''//'' \<or> c = CHR ''#'' then spec_lex InLineComment cs
      else c # spec_lex InCode cs)"
| "spec_lex InLineComment (c # cs) =
     (if c = CHR 0x0A then c # spec_lex InCode cs else spec_lex InLineComment cs)"
| "spec_lex InBlockComment (c # cs) =
     (if HasPrefix (c # cs) ''*/'' then spec_lex InCode (drop 1 cs)
      else spec_lex InBlockComment cs)"

definition spec_outsideComments :: "string \<Rightarrow> string" where
  "spec_outsideComments content = spec_lex InCode content"

text \<open>The commented set of a content: the list the rule reports, empty when it reports nothing.\<close>

definition commentedFunctions :: "string \<Rightarrow> string list" where
  "commentedFunctions content =
     (case cf_Apply content of None \<Rightarrow> [] | Some f \<Rightarrow> cf_CommentedList f)"

text \<open>
  The four contents of the repository's test of the rule (the lines of the last three are
  indented with tabs), and two more contents: one where a function is declared right
  after the closing brace of another and again in a comment, one with a declaration in a
  \<open>#\<close> comment.
\<close>

definition tabs :: "nat \<Rightarrow> string" where
  "tabs n = replicate n (CHR 0x09)"

definition testNoComments :: string where
  "testNoComments = ''<?php echo 'hello'; ?>''"

definition testSingleLine :: string where
  "testSingleLine =
     CHR 0x0A # tabs 4 @ ''// function oldMethod() {'' @
     CHR 0x0A # tabs 4 @ ''//    return false;'' @
     CHR 0x0A # tabs 4 @ ''// }'' @
     CHR 0x0A # tabs 3"

definition testMultiLine :: string where
  "testMultiLine =
     CHR 0x0A # tabs 4 @ ''/*'' @
     CHR 0x0A # tabs 4 @ ''public function deprecatedMethod($arg) {'' @
     CHR 0x0A # tabs 5 @ ''$this->doSomething();'' @
     CHR 0x0A # tabs 4 @ ''}'' @
     CHR 0x0A # tabs 4 @ ''*/'' @
     CHR 0x0A # tabs 3"

definition testRegularComment :: string where
  "testRegularComment =
     CHR 0x0A # tabs 4 @ ''// This is just a comment about a function'' @
     CHR 0x0A # tabs 4 @ ''// function is efficient'' @
     CHR 0x0A # tabs 3"

definition liveContent :: string where
  "liveContent = ''function a(){}function b(){}\<newline>//function b(){}''"

definition hashContent :: string where
  "hashContent = ''# function old() {}''"


subsection \<open>Properties of the PHP rule and of the gate\<close>

lemma mb_fold: "foldl (\<lambda>mb x. mb(x := True)) m b y \<longleftrightarrow> m y \<or> y \<in> set b"
  by (induction b arbitrary: m) auto

lemma set_difference: "set (difference a b) = set a - set b"
  by (auto simp: difference_def mb_fold)

lemma cf_Apply_list:
  "(case cf_Apply content of None \<Rightarrow> [] | Some f \<Rightarrow> cf_CommentedList f) =
     difference (findPHPFunctions content) (findPHPFunctions (removePHPComments content))"
  by (simp add: cf_Apply_def Let_def)

lemma cf_Apply_issues_nonempty: "cf_Apply content = Some f \<Longrightarrow> cf_Issues f \<noteq> []"
  by (auto simp: cf_Apply_def Let_def split: if_splits)

lemma lcb_Apply_issues_nonempty: "lcb_Apply parse content = Some f \<Longrightarrow> lc_Issues f \<noteq> []"
  by (auto simp: lcb_Apply_def Let_def split: option.splits if_splits)

lemma php_analyzeFile_issues:
  "php_analyzeFile parse path readFile = Some a \<Longrightarrow> php_Issues a \<noteq> []"
  by (auto simp: php_analyzeFile_def Let_def split: option.splits if_splits prod.splits
      dest: cf_Apply_issues_nonempty lcb_Apply_issues_nonempty)

lemma mixed_cf: "cf_Apply mixedContent =
    Some \<lparr>cf_AllFunctions = [''oldMethod''], cf_CommentedList = [''oldMethod''],
          cf_Issues = [\<lparr>Path = [], Description = ''Commented out PHP function: oldMethod'',
                        Line = 1, Severity = ''major''\<rparr>]\<rparr>"
  by code_simp

lemma mixed_lcb: "lcb_Apply (\<lambda>c. Some mixedTree) mixedContent =
    Some \<lparr>lc_Issues = [\<lparr>Path = [],
              Description = ''Critical: Catch block missing report() call in Laravel app file'',
              Line = 3, Severity = ''critical''\<rparr>],
          MissingReport = 1, MisplacedReport = 0\<rparr>"
  by (simp add: lcb_Apply_def mixedTree_def analyzeCatch_def)

lemma mixed_path: "Contains ''app/a.php'' ''app/''"
  by code_simp

lemma mixed_length: "length mixedContent = 62"
  by (simp add: mixedContent_def)

lemma mixed_analysis:
  "php_analyzeFile (\<lambda>c. Some mixedTree) ''app/a.php'' (Some mixedContent) = Some mixedAnalysis"
  by (simp add: php_analyzeFile_def mixed_cf mixed_lcb mixed_path mixed_length mixedAnalysis_def
        setPath_def)

lemma php_visit_keeps:
  "php_Issues a \<noteq> [] \<Longrightarrow>
     php_visit config w (Some a) =
       w\<lparr>results := results w @ [a],
         totalFunctions := totalFunctions w + TotalFunctions a,
         totalCommented := totalCommented w + CommentedFunctions a,
         allIssues := allIssues w @ php_Issues a\<rparr>"
  by (simp add: php_visit_def)

lemma php_visit_grows:
  "\<exists>rs ys. results (php_visit config w x) = results w @ rs
     \<and> allIssues (php_visit config w x) = allIssues w @ ys"
  by (cases x) (simp_all add: php_visit_def)

lemma php_walk_grows:
  "\<exists>rs ys. results (foldl (php_visit config) w xs) = results w @ rs
     \<and> allIssues (foldl (php_visit config) w xs) = allIssues w @ ys"
proof (induction xs arbitrary: w)
  case Nil
  then show ?case by simp
next
  case (Cons x xs)
  from php_visit_grows [of config w x]
  obtain rs1 ys1 where 1: "results (php_visit config w x) = results w @ rs1"
    "allIssues (php_visit config w x) = allIssues w @ ys1"
    by blast
  from Cons [of "php_visit config w x"] obtain rs2 ys2 where
    "results (foldl (php_visit config) (php_visit config w x) xs) = results (php_visit config w x) @ rs2"
    "allIssues (foldl (php_visit config) (php_visit config w x) xs) = allIssues (php_visit config w x) @ ys2"
    by blast
  with 1 show ?case by simp
qed

lemma php_walk_retains:
  assumes "php_Issues a \<noteq> []"
  shows "a \<in> set (results (foldl (php_visit config) w (before @ Some a # after)))
     \<and> set (php_Issues a) \<subseteq> set (allIssues (foldl (php_visit config) w (before @ Some a # after)))"
proof -
  define w1 where "w1 = foldl (php_visit config) w before"
  define w2 where "w2 = php_visit config w1 (Some a)"
  have r2: "results w2 = results w1 @ [a]" and i2: "allIssues w2 = allIssues w1 @ php_Issues a"
    unfolding w2_def by (simp_all add: php_visit_keeps [OF assms])
  have f: "foldl (php_visit config) w (before @ Some a # after) = foldl (php_visit config) w2 after"
    by (simp add: w1_def w2_def)
  from php_walk_grows [of config w2 after] obtain rs ys where
    "results (foldl (php_visit config) w2 after) = results w2 @ rs"
    "allIssues (foldl (php_visit config) w2 after) = allIssues w2 @ ys" by blast
  then show ?thesis
    unfolding f r2 i2 by auto
qed

lemma php_retained_member:
  "php_Issues a \<noteq> [] \<Longrightarrow> a \<in> set (php_retained config (before @ Some a # after))"
  unfolding php_retained_def using php_walk_retains by blast

text \<open>
  The gate as it is written never skips a file: it tests \<open>len(analysis.Issues) == 0\<close>,
  and every analysis that \<open>analyzeFile\<close> returns has an issue, also when all its issues
  come from the commented-functions rule.
\<close>

lemma php_gate_never_skips:
  "php_analyzeFile parse path readFile = Some a \<Longrightarrow>
     a \<in> set (php_retained config (before @ Some a # after))"
  using php_analyzeFile_issues php_retained_member by blast

lemma php_catch_issues:
  assumes "php_analyzeFile parse path (Some content) = Some a"
    and "Contains path ''app/''" and "lcb_Apply parse content = Some finding"
  shows "set (map (setPath path) (lc_Issues finding)) \<subseteq> set (php_Issues a)"
  using assms
  by (auto simp: php_analyzeFile_def Let_def split: option.splits if_splits prod.splits)

lemma php_run_issues:
  assumes "0 \<le> TopN config"
  shows "\<exists>ranked. PHPAnalyzer_Run srt config analyses =
     Inr (ranked, allIssues (foldl (php_visit config)
        \<lparr>results = [], totalFunctions = 0, totalCommented = 0, allIssues = []\<rparr> analyses))"
  using assms by (auto simp: php_run_shape Let_def)

text \<open>The two scans compute what \<open>removePHPComments\<close> computes.\<close>

lemma splitAcc_line:
  "CHR 0x0A \<notin> set l \<Longrightarrow> splitAcc acc (l @ CHR 0x0A # rest) = (rev acc @ l) # splitAcc [] rest"
  by (induction l arbitrary: acc) auto

lemma splitAcc_last: "CHR 0x0A \<notin> set l \<Longrightarrow> splitAcc acc l = [rev acc @ l]"
  by (induction l arbitrary: acc) auto

lemma splitAcc_nonempty: "splitAcc acc s \<noteq> []"
  by (induction s arbitrary: acc) auto

lemma Join_Cons: "ys \<noteq> [] \<Longrightarrow> Join (x # ys) sep = x @ sep @ Join ys sep"
  by (cases ys) auto

lemma cutLines_comment: "CHR 0x0A \<notin> set l \<Longrightarrow> spec_cutLines True (l @ rest) = spec_cutLines True rest"
  by (induction l) auto

lemma cutLines_line:
  "CHR 0x0A \<notin> set l \<Longrightarrow>
     spec_cutLines False (l @ CHR 0x0A # rest) = cutLineComment l @ CHR 0x0A # spec_cutLines False rest"
proof (induction l)
  case Nil
  then show ?case by simp
next
  case (Cons c l)
  then have c: "c \<noteq> CHR 0x0A" and l: "CHR 0x0A \<notin> set l" by auto
  show ?case
  proof (cases "HasPrefix (c # l) ''//''")
    case True
    then have "HasPrefix (c # l @ CHR 0x0A # rest) ''//''"
      by (cases l) auto
    with True c l show ?thesis
      using cutLines_comment [OF l, of "CHR 0x0A # rest"] by simp
  next
    case False
    with c have "\<not> HasPrefix (c # l @ CHR 0x0A # rest) ''//''"
      by (cases l) auto
    with False c Cons.IH [OF l] show ?thesis
      by (auto split: option.splits)
  qed
qed

lemma cutLines_last:
  "CHR 0x0A \<notin> set l \<Longrightarrow> spec_cutLines False l = cutLineComment l"
proof (induction l)
  case Nil
  then show ?case by simp
next
  case (Cons c l)
  then have c: "c \<noteq> CHR 0x0A" and l: "CHR 0x0A \<notin> set l" by auto
  show ?case
  proof (cases "HasPrefix (c # l) ''//''")
    case True
    with c l show ?thesis using cutLines_comment [OF l, of "[]"] by simp
  next
    case False
    with c Cons.IH [OF l] show ?thesis by (auto split: option.splits)
  qed
qed

lemma cut_lines_refine:
  "Join (map cutLineComment (SplitLines s)) [CHR 0x0A] = spec_cutLines False s"
proof (induction "length s" arbitrary: s rule: less_induct)
  case less
  show ?case
  proof (cases "CHR 0x0A \<in> set s")
    case False
    then show ?thesis
      using splitAcc_last [of s "[]"] cutLines_last [of s] by (simp add: SplitLines_def)
  next
    case True
    then obtain l rest where s: "s = l @ CHR 0x0A # rest" and l: "CHR 0x0A \<notin> set l"
      by (auto dest: split_list_first)
    have "length rest < length s" using s by simp
    from less [OF this] have ih:
      "Join (map cutLineComment (SplitLines rest)) [CHR 0x0A] = spec_cutLines False rest" .
    have ne: "map cutLineComment (splitAcc [] rest) \<noteq> []"
      using splitAcc_nonempty [of "[]" rest] by simp
    show ?thesis
      unfolding s SplitLines_def splitAcc_line [OF l]
      using ih cutLines_line [OF l, of rest] Join_Cons [OF ne]
      by (simp add: SplitLines_def del: cutLineComment.simps)
  qed
qed


lemma ends_lit_iff:
  "ends (lit x) ((p, s), g) =
     (if HasPrefix s x then [((rev x @ p, drop (length x) s), g)] else [])"
proof (induction x arbitrary: p s)
  case Nil
  then show ?case by (simp add: lit_def ends.simps)
next
  case (Cons c x)
  have l: "lit (c # x) = Seq (Sym (\<lambda>y. y = c)) (lit x)" by (simp add: lit_def)
  show ?case
  proof (cases s)
    case Nil
    then show ?thesis unfolding l by (simp add: ends.simps)
  next
    case (Cons d ds)
    then show ?thesis unfolding l using Cons.IH [of "d # p" ds]
      by (auto simp: ends_Seq ends_Sym)
  qed
qed

lemma ends_lazy_any:
  "ends (LazyStar anyChar) ((p, c # cs), g) =
     ((p, c # cs), g) # ends (LazyStar anyChar) ((c # p, cs), g)"
  by (subst ends.simps(7)) (simp add: anyChar_def ends_Sym ahead_def)

lemma ends_lazy_any_Nil: "ends (LazyStar anyChar) ((p, []), g) = [((p, []), g)]"
  by (subst ends.simps(7)) (simp add: anyChar_def ends.simps(1))

lemma ends_lazy_lit:
  "x \<noteq> [] \<Longrightarrow>
     (case Index s x of
        None \<Rightarrow> ends (Seq (LazyStar anyChar) (lit x)) ((p, s), g) = []
      | Some i \<Rightarrow>
          (\<exists>es. ends (Seq (LazyStar anyChar) (lit x)) ((p, s), g) =
             ((rev x @ rev (take i s) @ p, drop (i + length x) s), g) # es))"
proof (induction s arbitrary: p)
  case Nil
  then show ?case
    by (cases x) (simp_all add: ends_Seq ends_lazy_any_Nil ends_lit_iff)
next
  case (Cons c cs)
  have step: "ends (Seq (LazyStar anyChar) (lit x)) ((p, c # cs), g) =
      ends (lit x) ((p, c # cs), g) @ ends (Seq (LazyStar anyChar) (lit x)) ((c # p, cs), g)"
    by (simp add: ends_Seq ends_lazy_any)
  show ?case
  proof (cases "HasPrefix (c # cs) x")
    case True
    then show ?thesis unfolding step by (simp add: ends_lit_iff)
  next
    case False
    with Cons.IH [OF Cons.prems, of "c # p"] show ?thesis
      unfolding step by (auto simp: ends_lit_iff split: option.splits)
  qed
qed

lemma HasPrefix_take: "HasPrefix s x \<Longrightarrow> take (length x) s = x"
  by (induction s x rule: HasPrefix.induct) auto

lemma Index_Some: "Index s x = Some i \<Longrightarrow> HasPrefix (drop i s) x"
proof (induction s arbitrary: i)
  case Nil
  then show ?case by (simp split: if_splits)
next
  case (Cons c cs)
  then show ?case by (auto split: if_splits option.splits)
qed

lemma block_ends_none:
  "\<not> HasPrefix s ''/*'' \<or> Index (drop 2 s) ''*/'' = None \<Longrightarrow>
     ends blockCommentRegex ((p, s), None) = []"
  using ends_lazy_lit [where x = "''*/''" and s = "drop 2 s" and p = "rev ''/*'' @ p" and g = None]
  by (auto simp: blockCommentRegex_def ends_Seq [of "lit ''/*''"] ends_lit_iff numeral_2_eq_2)

lemma block_ends_some:
  assumes "HasPrefix s ''/*''" and "Index (drop 2 s) ''*/'' = Some i"
  shows "\<exists>es. ends blockCommentRegex ((p, s), None) =
     ((rev (take (2 + i + 2) s) @ p, drop (2 + i + 2) s), None) # es"
proof -
  from HasPrefix_take [OF assms(1)] have t: "take 2 s = ''/*''" by (simp add: numeral_2_eq_2)
  from HasPrefix_take [OF Index_Some [OF assms(2)]]
  have t2: "take 2 (drop i (drop 2 s)) = ''*/''" by (simp add: numeral_2_eq_2)
  from ends_lazy_lit [where x = "''*/''" and s = "drop 2 s" and p = "rev ''/*'' @ p" and g = None]
    assms(2)
  obtain es where es: "ends (Seq (LazyStar anyChar) (lit ''*/'')) ((rev ''/*'' @ p, drop 2 s), None) =
      ((rev ''*/'' @ rev (take i (drop 2 s)) @ rev ''/*'' @ p, drop (i + 2) (drop 2 s)), None) # es"
    by auto
  have "take (2 + i + 2) s = take 2 s @ take (i + 2) (drop 2 s)"
    by (metis add.assoc take_add)
  also have "take (i + 2) (drop 2 s) = take i (drop 2 s) @ take 2 (drop i (drop 2 s))"
    by (rule take_add)
  finally have tk: "take (2 + i + 2) s = ''/*'' @ take i (drop 2 s) @ ''*/''"
    using t t2 by simp
  have dr: "drop (i + 2) (drop 2 s) = drop (2 + i + 2) s"
    by (simp add: add.commute add.left_commute)
  have "ends blockCommentRegex ((p, s), None) =
      ends (Seq (LazyStar anyChar) (lit ''*/'')) ((rev ''/*'' @ p, drop 2 s), None)"
    using assms(1) by (simp add: blockCommentRegex_def ends_Seq [of "lit ''/*''"] ends_lit_iff numeral_2_eq_2)
  also note es
  finally show ?thesis unfolding tk dr by simp
qed

lemma block_lang_length: "w \<in> lang blockCommentRegex \<Longrightarrow> 4 \<le> length w"
  unfolding blockCommentRegex_def by (auto simp: lang_lit)

lemma replaceAll_skip:
  assumes "ends blockCommentRegex ((pre, c # cs), None) = []"
  shows "replaceAll blockCommentRegex [] src l pre (c # cs) =
     replaceAll blockCommentRegex [] src l (c # pre) cs"
proof (cases "findFrom blockCommentRegex (c # pre) cs")
  case None
  with assms show ?thesis
    by (simp add: replaceAll.simps [of _ _ _ _ pre] replaceAll.simps [of _ _ _ _ "c # pre"])
next
  case (Some ie)
  obtain i e where ie: "ie = (i, e)" by (cases ie)
  from findFrom_sound [OF Some [unfolded ie]] obtain u w where
    uw: "cs = u @ w @ snd (fst e)" "w \<in> lang blockCommentRegex" by blast
  from arg_cong [OF uw(1), of length] block_lang_length [OF uw(2)]
  have lt: "length (snd (fst e)) < length cs" by auto
  then show ?thesis using assms Some ie
    by (simp add: replaceAll.simps [of _ _ _ _ pre] replaceAll.simps [of _ _ _ _ "c # pre"])
qed


lemma slice_snoc:
  "l \<le> length pre \<Longrightarrow>
     slice (rev pre @ c # cs) l (Suc (length pre)) = slice (rev pre @ c # cs) l (length pre) @ [c]"
  by (simp add: slice_def Suc_diff_le take_Suc_conv_app_nth nth_append)

lemma strip_blocks_refine_aux:
  "src = rev pre @ rest \<Longrightarrow> l \<le> length pre \<Longrightarrow>
     replaceAll blockCommentRegex [] src l pre rest =
       slice src l (length pre) @ spec_stripBlocks rest"
proof (induction rest arbitrary: pre l rule: spec_stripBlocks.induct)
  case 1
  have "ends blockCommentRegex ((pre, []), None) = []"
    by (rule block_ends_none) simp
  with 1 show ?case
    by (simp add: replaceAll.simps [of _ _ _ _ pre] spec_stripBlocks.simps slice_def)
next
  case (2 c cs)
  show ?case
  proof (cases "HasPrefix (c # cs) ''/*'' \<and> Index (drop 2 (c # cs)) ''*/'' \<noteq> None")
    case False
    then have none: "ends blockCommentRegex ((pre, c # cs), None) = []"
      by (intro block_ends_none) auto
    have src: "src = rev (c # pre) @ cs" using "2.prems" by simp
    have l: "l \<le> length (c # pre)" using "2.prems" by simp
    have ih: "replaceAll blockCommentRegex [] src l (c # pre) cs =
        slice src l (length (c # pre)) @ spec_stripBlocks cs"
    proof (cases "HasPrefix (c # cs) ''/*''")
      case True
      with False have "Index (drop 2 (c # cs)) ''*/'' = None" by simp
      from "2.IH"(1) [OF True this src l] show ?thesis .
    next
      case False
      from "2.IH"(3) [OF False src l] show ?thesis .
    qed
    have st: "spec_stripBlocks (c # cs) = c # spec_stripBlocks cs"
      using False by (subst spec_stripBlocks.simps) (auto split: option.splits)
    show ?thesis
      unfolding replaceAll_skip [OF none] ih st
      using slice_snoc [OF "2.prems"(2), of c cs] "2.prems"(1) by simp
  next
    case True
    then obtain i where hp: "HasPrefix (c # cs) ''/*''" and i: "Index (drop 2 (c # cs)) ''*/'' = Some i"
      by auto
    let ?rest = "drop (2 + i + 2) (c # cs)"
    let ?pre = "rev (take (2 + i + 2) (c # cs)) @ pre"
    from block_ends_some [OF hp i, of pre] obtain es where
      es: "ends blockCommentRegex ((pre, c # cs), None) = ((?pre, ?rest), None) # es" by blast
    have src: "src = rev ?pre @ ?rest" using "2.prems" by simp
    have ih: "replaceAll blockCommentRegex [] src (length ?pre) ?pre ?rest =
        slice src (length ?pre) (length ?pre) @ spec_stripBlocks ?rest"
      by (rule "2.IH"(2) [OF hp i src]) simp
    have st: "spec_stripBlocks (c # cs) = spec_stripBlocks ?rest"
      using hp i by (subst spec_stripBlocks.simps) simp
    have lt: "length ?rest < length (c # cs)" by simp
    have "replaceAll blockCommentRegex [] src l pre (c # cs) =
        slice src l (length pre) @ replaceAll blockCommentRegex [] src (length ?pre) ?pre ?rest"
      using lt by (subst replaceAll.simps) (simp add: es pos_def)
    then show ?thesis unfolding ih st by (simp add: slice_def)
  qed
qed

lemma strip_blocks_refine:
  "ReplaceAllString blockCommentRegex code [] = spec_stripBlocks code"
  using strip_blocks_refine_aux [of code "[]" code 0]
  by (simp add: ReplaceAllString_def slice_def)

lemma removePHPComments_refine: "removePHPComments code = spec_cleaned code"
  by (simp add: removePHPComments_def spec_cleaned_def strip_blocks_refine cut_lines_refine Let_def)

text \<open>
  Every match that \<open>allMatches\<close> delivers ends a search of the pattern from the match's
  start, and a match of the declaration pattern has the shape of a declaration, its
  group spanning the name.
\<close>

lemma findFrom_state:
  "findFrom r pre rest = Some (i, e) \<Longrightarrow>
     \<exists>u v. rest = u @ v \<and> i = length pre + length u \<and> e \<in> set (ends r ((rev u @ pre, v), None))"
proof (induction rest arbitrary: pre)
  case Nil
  then have "e \<in> set (ends r ((pre, []), None))" "i = length pre" by (auto split: list.splits)
  then have "[] = [] @ ([]::string) \<and> i = length pre + length ([]::string)
      \<and> e \<in> set (ends r ((rev [] @ pre, []), None))" by simp
  then show ?case by blast
next
  case (Cons c cs)
  show ?case
  proof (cases "ends r ((pre, c # cs), None)")
    case Nil
    with Cons.prems have "findFrom r (c # pre) cs = Some (i, e)" by simp
    from Cons.IH [OF this] obtain u v where
      "cs = u @ v" "i = length (c # pre) + length u" "e \<in> set (ends r ((rev u @ c # pre, v), None))"
      by blast
    then have "c # cs = (c # u) @ v \<and> i = length pre + length (c # u)
        \<and> e \<in> set (ends r ((rev (c # u) @ pre, v), None))" by simp
    then show ?thesis by blast
  next
    case (Cons e' es)
    with Cons.prems have "e \<in> set (ends r ((pre, c # cs), None))" "i = length pre" by auto
    then have "c # cs = [] @ (c # cs) \<and> i = length pre + length ([]::string)
        \<and> e \<in> set (ends r ((rev [] @ pre, c # cs), None))" by simp
    then show ?thesis by blast
  qed
qed

lemma allMatches_states:
  "\<forall>m\<in>set (allMatches r p pre rest).
     \<exists>u v e. rev pre @ rest = u @ v \<and> e \<in> set (ends r ((rev u, v), None))
        \<and> m = (length u, pos (fst e), snd e)"
proof (induction r p pre rest rule: allMatches.induct)
  case (1 r p pre rest)
  show ?case
  proof (cases "findFrom r pre rest")
    case None
    then show ?thesis by (simp add: allMatches.simps [of r p pre rest])
  next
    case (Some ie)
    obtain i e where ie: "ie = (i, e)" by (cases ie)
    from findFrom_state [OF Some [unfolded ie]] obtain u v where
      uv: "rest = u @ v" "i = length pre + length u" "e \<in> set (ends r ((rev u @ pre, v), None))"
      by blast
    then have "rev pre @ rest = (rev pre @ u) @ v \<and> e \<in> set (ends r ((rev (rev pre @ u), v), None))
        \<and> (i, pos (fst e), snd e) = (length (rev pre @ u), pos (fst e), snd e)" by simp
    then have this_ok: "\<exists>u v e'. rev pre @ rest = u @ v \<and> e' \<in> set (ends r ((rev u, v), None))
        \<and> (i, pos (fst e), snd e) = (length u, pos (fst e'), snd e')" by blast
    from ends_sound [OF uv(3)] obtain w where w: "reach ((rev u @ pre, v), None) w e" by blast
    then have same_text: "rev (fst (fst e)) @ snd (fst e) = rev pre @ rest"
      using uv(1) by (simp add: reach_def)
    show ?thesis
    proof (cases "length (snd (fst e)) < length rest")
      case True
      from "1.IH"(1) [OF Some ie [symmetric] True] this_ok same_text
      show ?thesis using Some ie True by (simp add: allMatches.simps [of r p pre rest])
    next
      case False
      have eq: "allMatches r p pre rest =
          (if Some i = p then [] else [(i, pos (fst e), snd e)]) @
          (case rest of [] \<Rightarrow> [] | c # cs \<Rightarrow> allMatches r (Some (pos (fst e))) (c # pre) cs)"
        by (subst allMatches.simps) (simp add: Some ie False)
      show ?thesis
      proof (cases rest)
        case Nil
        with this_ok show ?thesis unfolding eq by simp
      next
        case (Cons c cs)
        from "1.IH"(2) [OF Some ie [symmetric] False Cons] this_ok
        show ?thesis unfolding Cons eq [unfolded Cons list.case] using Cons by auto
      qed
    qed
  qed
qed

lemma starL_class: "v \<in> starL {[c] | c. q c} \<Longrightarrow> \<forall>c\<in>set v. q c"
  by (induction rule: starL.induct) auto

lemma lang_Plus_class:
  "w \<in> lang (Plus (Sym q)) \<Longrightarrow> w \<noteq> [] \<and> (\<forall>c\<in>set w. q c)"
  unfolding Plus_def using starL_class [of _ q] by auto

lemma lang_Star_class: "w \<in> lang (Star (Sym q)) \<Longrightarrow> \<forall>c\<in>set w. q c"
  using starL_class [of w q] by simp

lemma declarationStart_shape:
  "w \<in> lang declarationStart \<Longrightarrow>
     \<exists>x ws. w = x @ ''function'' @ ws \<and> ws \<noteq> [] \<and> (\<forall>c\<in>set ws. reSpace c)"
proof -
  assume "w \<in> lang declarationStart"
  then obtain x1 x2 x3 x4 f ws where w: "w = x1 @ x2 @ x3 @ x4 @ f @ ws"
    and f: "f \<in> lang (lit ''function'')" and ws: "ws \<in> lang (Plus (Sym reSpace))"
    unfolding declarationStart_def lang.simps(4) by blast
  from f have "f = ''function''" by (simp add: lang_lit)
  with w lang_Plus_class [OF ws]
  have "w = (x1 @ x2 @ x3 @ x4) @ ''function'' @ ws \<and> ws \<noteq> [] \<and> (\<forall>c\<in>set ws. reSpace c)"
    by simp
  then show ?thesis by blast
qed


lemma hasGroup_class_star: "\<not> hasGroup (Star (Sym q))"
  by simp

lemma functionRegex_match:
  assumes "e \<in> set (ends functionRegex ((rev u, v), None))"
  shows "\<exists>x ws name ws' post.
     v = x @ ''function'' @ ws @ name @ ws' @ ''('' @ post
     \<and> ws \<noteq> [] \<and> (\<forall>c\<in>set ws. reSpace c) \<and> name \<noteq> [] \<and> (\<forall>c\<in>set name. reWord c)
     \<and> (\<forall>c\<in>set ws'. reSpace c)
     \<and> snd e = Some (length u + length (x @ ''function'' @ ws),
                     length u + length (x @ ''function'' @ ws) + length name)"
proof -
  let ?s0 = "((rev u, v), None :: (nat \<times> nat) option)"
  from assms obtain m1 m2 m3 where m1: "m1 \<in> set (ends declarationStart ?s0)"
    and m2: "m2 \<in> set (ends (Group (Plus (Sym reWord))) m1)"
    and m3: "m3 \<in> set (ends (Star (Sym reSpace)) m2)"
    and e: "e \<in> set (ends (lit ''('') m3)"
    unfolding functionRegex_def ends.simps(4) by auto
  from m2 obtain m2' where m2': "m2' \<in> set (ends (Plus (Sym reWord)) m1)"
    and m2eq: "m2 = (fst m2', Some (pos (fst m1), pos (fst m2')))"
    unfolding ends.simps(8) by auto
  from ends_sound [OF m1] obtain w1 where w1: "reach ?s0 w1 m1" "w1 \<in> lang declarationStart" by blast
  from ends_sound [OF m2'] obtain w2 where w2: "reach m1 w2 m2'" "w2 \<in> lang (Plus (Sym reWord))" by blast
  from ends_sound [OF m3] obtain w3 where w3: "reach m2 w3 m3" "w3 \<in> lang (Star (Sym reSpace))" by blast
  from ends_sound [OF e] obtain w4 where w4: "reach m3 w4 e" "w4 \<in> lang (lit ''('')" by blast
  from w4(2) have w4eq: "w4 = ''(''" by (simp add: lang_lit)
  from ends_keeps_group [OF hasGroup_class_star m3] have g3: "snd m3 = snd m2" .
  from ends_keeps_group [OF hasGroup_lit e] have ge: "snd e = snd m3" .
  from declarationStart_shape [OF w1(2)] obtain x ws where
    x: "w1 = x @ ''function'' @ ws" "ws \<noteq> []" "\<forall>c\<in>set ws. reSpace c" by blast
  have v: "v = w1 @ w2 @ w3 @ w4 @ snd (fst e)"
    using w1(1) w2(1) w3(1) w4(1) m2eq by (simp add: reach_def)
  have p1: "pos (fst m1) = length u + length w1"
    using w1(1) by (simp add: reach_def pos_def)
  have p2: "pos (fst m2') = length u + length w1 + length w2"
    using w1(1) w2(1) by (simp add: reach_def pos_def)
  have "v = x @ ''function'' @ ws @ w2 @ w3 @ ''('' @ snd (fst e)
     \<and> ws \<noteq> [] \<and> (\<forall>c\<in>set ws. reSpace c) \<and> w2 \<noteq> [] \<and> (\<forall>c\<in>set w2. reWord c)
     \<and> (\<forall>c\<in>set w3. reSpace c)
     \<and> snd e = Some (length u + length (x @ ''function'' @ ws),
                     length u + length (x @ ''function'' @ ws) + length w2)"
    using v x lang_Plus_class [OF w2(2)] lang_Star_class [OF w3(2)] ge g3 m2eq p1 p2 w4eq
    by simp
  then show ?thesis by blast
qed

lemma reWord_not_space: "reWord c \<Longrightarrow> \<not> reSpace c"
  by (auto simp: reWord_def reSpace_def Let_def)

lemma dropWhile_all: "\<forall>c\<in>set ws. P c \<Longrightarrow> \<not> P d \<Longrightarrow> dropWhile P (ws @ d # rest) = d # rest"
  by (induction ws) auto

lemma HasPrefix_append: "HasPrefix (p @ s) p"
  by (induction p) auto

lemma declaredHere_intro:
  assumes "ws \<noteq> []" "\<forall>c\<in>set ws. reSpace c" "name \<noteq> []" "\<forall>c\<in>set name. reWord c"
    "\<forall>c\<in>set ws'. reSpace c"
  shows "declaredHere name (''function'' @ ws @ name @ ws' @ ''('' @ post)"
proof -
  from assms(3) obtain d ds where name: "name = d # ds" by (cases name) auto
  with assms(4) have d: "\<not> reSpace d" by (auto dest: reWord_not_space)
  have a: "dropWhile reSpace (ws @ name @ ws' @ CHR ''('' # post) = name @ ws' @ CHR ''('' # post"
    unfolding name using dropWhile_all [OF assms(2) d] by simp
  have "\<not> reSpace (CHR ''('')" by (simp add: reSpace_def)
  from dropWhile_all [OF assms(5) this, of post]
  have b: "dropWhile reSpace (ws' @ CHR ''('' # post) = CHR ''('' # post" by simp
  show ?thesis
    unfolding declaredHere_def Let_def
    using assms(1) HasPrefix_append [of name "ws' @ CHR ''('' # post"]
    by (simp add: a b)
qed

lemma spec_declares_intro:
  "declaredHere name t \<Longrightarrow> spec_declares (pre @ t) name"
proof (induction pre)
  case Nil
  then show ?case by (cases t) (auto simp: declaredHere_def)
next
  case (Cons c pre)
  then show ?case by simp
qed

lemma inventory_sound:
  assumes "name \<in> set (findPHPFunctions code)"
  shows "spec_declares code name \<and> name \<noteq> [] \<and> (\<forall>c\<in>set name. reWord c)
     \<and> name \<noteq> ''__construct'' \<and> name \<noteq> ''__destruct''"
proof -
  from assms obtain m where m: "m \<in> set (allMatches functionRegex None [] code)"
    and name: "name = submatch code m" and nc: "name \<noteq> ''__construct''" "name \<noteq> ''__destruct''"
    by (auto simp: findPHPFunctions_def FindAllStringSubmatchIndex_def)
  from allMatches_states [of functionRegex None "[]" code] m obtain u v e where
    code: "code = u @ v" and e: "e \<in> set (ends functionRegex ((rev u, v), None))"
    and meq: "m = (length u, pos (fst e), snd e)" by auto
  from functionRegex_match [OF e] obtain x ws nm ws' post where
    v: "v = x @ ''function'' @ ws @ nm @ ws' @ ''('' @ post"
    and ws: "ws \<noteq> []" "\<forall>c\<in>set ws. reSpace c" and nm: "nm \<noteq> []" "\<forall>c\<in>set nm. reWord c"
    and ws': "\<forall>c\<in>set ws'. reSpace c"
    and g: "snd e = Some (length u + length (x @ ''function'' @ ws),
                     length u + length (x @ ''function'' @ ws) + length nm)"
    by blast
  have "submatch code m = slice (u @ x @ ''function'' @ ws @ nm @ ws' @ ''('' @ post)
      (length (u @ x @ ''function'' @ ws)) (length (u @ x @ ''function'' @ ws) + length nm)"
    unfolding meq g code v by (simp add: add.assoc)
  also have "\<dots> = nm"
    using slice_middle [of "u @ x @ ''function'' @ ws" nm "ws' @ ''('' @ post"] by simp
  finally have nmeq: "name = nm" using name by simp
  from declaredHere_intro [OF ws nm ws', of post]
  have "spec_declares ((u @ x) @ ''function'' @ ws @ nm @ ws' @ ''('' @ post) nm"
    by (rule spec_declares_intro)
  then have "spec_declares code nm" unfolding code v by simp
  with nm nc nmeq show ?thesis by simp
qed

lemma no_slash_strip: "CHR ''/'' \<notin> set s \<Longrightarrow> spec_stripBlocks s = s"
  by (induction s) (auto simp: spec_stripBlocks.simps)

lemma no_slash_cut: "CHR ''/'' \<notin> set s \<Longrightarrow> spec_cutLines False s = s"
  by (induction s) auto

lemma no_slash_cleaned: "CHR ''/'' \<notin> set s \<Longrightarrow> spec_cleaned s = s"
  by (simp add: spec_cleaned_def no_slash_strip no_slash_cut)

lemma commented_set:
  "set (commentedFunctions content) =
     set (findPHPFunctions content) - set (findPHPFunctions (spec_cleaned content))"
  unfolding commentedFunctions_def cf_Apply_list removePHPComments_refine by (rule set_difference)

lemma cf_Apply_None: "cf_Apply content = None \<longleftrightarrow> commentedFunctions content = []"
  by (simp add: commentedFunctions_def cf_Apply_def Let_def)


lemma test_single: "commentedFunctions testSingleLine = [''oldMethod'']"
  by code_simp

lemma test_multi: "commentedFunctions testMultiLine = [''deprecatedMethod'']"
  by code_simp

lemma test_none: "cf_Apply testNoComments = None"
  by code_simp

lemma test_regular: "cf_Apply testRegularComment = None"
  by code_simp

text \<open>
  C3, as amended. The comment-stripped copy that the rule computes is the content with
  every \<open>/* ... */\<close> span removed (each span ends at the first \<open>*/\<close> after its opening) and
  every line then cut at its first \<open>//\<close>; text after \<open>#\<close> stays. A name is in the commented
  set exactly when the declaration pattern captures it in the raw content and does not
  capture it in that copy. Every name the pattern captures is a non-empty identifier
  other than the constructor and destructor names, and it is declared in the text:
  \<open>function\<close>, white space, the name, optional white space and an open parenthesis occur
  there in a row. The rule returns nothing exactly when the commented set is empty, and
  so for every content without a \<open>/\<close>. On the four contents of the repository's test the
  rule reports what the test expects.
\<close>

theorem C3_commented_function_set:
  "removePHPComments content = spec_cleaned content
   \<and> (name \<in> set (commentedFunctions content) \<longleftrightarrow>
        name \<in> set (findPHPFunctions content)
        \<and> name \<notin> set (findPHPFunctions (spec_cleaned content)))
   \<and> (name \<in> set (findPHPFunctions content) \<longrightarrow>
        spec_declares content name \<and> name \<noteq> [] \<and> (\<forall>c\<in>set name. reWord c)
        \<and> name \<noteq> ''__construct'' \<and> name \<noteq> ''__destruct'')
   \<and> (cf_Apply content = None \<longleftrightarrow> commentedFunctions content = [])
   \<and> (CHR ''/'' \<notin> set content \<longrightarrow> cf_Apply content = None)
   \<and> cf_Apply testNoComments = None
   \<and> commentedFunctions testSingleLine = [''oldMethod'']
   \<and> commentedFunctions testMultiLine = [''deprecatedMethod'']
   \<and> cf_Apply testRegularComment = None"
proof -
  have a: "removePHPComments content = spec_cleaned content"
    by (rule removePHPComments_refine)
  have b: "name \<in> set (commentedFunctions content) \<longleftrightarrow>
        name \<in> set (findPHPFunctions content)
        \<and> name \<notin> set (findPHPFunctions (spec_cleaned content))"
    unfolding commented_set by simp
  have c: "name \<in> set (findPHPFunctions content) \<longrightarrow>
        spec_declares content name \<and> name \<noteq> [] \<and> (\<forall>c\<in>set name. reWord c)
        \<and> name \<noteq> ''__construct'' \<and> name \<noteq> ''__destruct''"
    using inventory_sound [of name content] by blast
  have d: "cf_Apply content = None \<longleftrightarrow> commentedFunctions content = []"
    by (rule cf_Apply_None)
  have e: "CHR ''/'' \<notin> set content \<longrightarrow> cf_Apply content = None"
  proof
    assume "CHR ''/'' \<notin> set content"
    then have "spec_cleaned content = content" by (rule no_slash_cleaned)
    then have "set (commentedFunctions content) = {}" unfolding commented_set by simp
    then show "cf_Apply content = None" unfolding cf_Apply_None by simp
  qed
  from a b c d e test_none test_single test_multi test_regular show ?thesis by (intro conjI)
qed

theorem C3_commented_function_set_witness:
  "''deprecatedMethod'' \<in> set (findPHPFunctions testMultiLine)
   \<and> ''deprecatedMethod'' \<notin> set (findPHPFunctions (spec_cleaned testMultiLine))
   \<and> ''deprecatedMethod'' \<in> set (commentedFunctions testMultiLine)
   \<and> spec_declares testMultiLine ''deprecatedMethod''
   \<and> CHR ''/'' \<notin> set testNoComments
   \<and> cf_Apply testNoComments = None"
proof -
  note t = C3_commented_function_set [of testMultiLine "''deprecatedMethod''"]
  have m: "''deprecatedMethod'' \<in> set (commentedFunctions testMultiLine)"
    using t by simp
  with t have i: "''deprecatedMethod'' \<in> set (findPHPFunctions testMultiLine)"
    and n: "''deprecatedMethod'' \<notin> set (findPHPFunctions (spec_cleaned testMultiLine))"
    by blast+
  from i t have d: "spec_declares testMultiLine ''deprecatedMethod''" by blast
  have s: "CHR ''/'' \<notin> set testNoComments" by (simp add: testNoComments_def)
  with C3_commented_function_set [of testNoComments "[]"]
  have z: "cf_Apply testNoComments = None" by blast
  from i n m d s z show ?thesis by (intro conjI)
qed

text \<open>
  C3 as stated fails in both directions. In \<open>liveContent\<close> the function \<open>b\<close> is
  declared outside every comment, right after the closing brace of \<open>a\<close>, where the
  declaration pattern does not look for a declaration (the declaration is still there
  in the copy that the rule strips of comments); its commented-out copy on the next line
  puts \<open>b\<close> in the commented set. In \<open>hashContent\<close> the declaration of \<open>old\<close> stands
  only inside a \<open>#\<close> comment, which the rule does not strip, and the rule reports nothing.
\<close>

theorem C3_declaration_counterexample:
  "spec_outsideComments liveContent = ''function a(){}function b(){}\<newline>''
   \<and> removePHPComments liveContent = ''function a(){}function b(){}\<newline>''
   \<and> spec_declares (spec_outsideComments liveContent) ''b''
   \<and> commentedFunctions liveContent = [''b'']
   \<and> spec_declares hashContent ''old''
   \<and> \<not> spec_declares (spec_outsideComments hashContent) ''old''
   \<and> cf_Apply hashContent = None"
proof -
  have a: "spec_outsideComments liveContent = ''function a(){}function b(){}\<newline>''"
    by code_simp
  have a': "removePHPComments liveContent = ''function a(){}function b(){}\<newline>''"
    by code_simp
  have b: "spec_declares (spec_outsideComments liveContent) ''b''"
    by code_simp
  have c: "commentedFunctions liveContent = [''b'']"
    by code_simp
  have d: "spec_declares hashContent ''old''"
    by code_simp
  have e: "\<not> spec_declares (spec_outsideComments hashContent) ''old''"
    by code_simp
  have f: "cf_Apply hashContent = None"
    by code_simp
  from a a' b c d e f show ?thesis by (intro conjI)
qed


text \<open>
  C6, as amended. A PHP file under \<open>app/\<close> for which the catch-block rule has a finding
  is retained and its issues are returned, whatever its number of commented functions,
  its ratio and the configured thresholds; the catch-block findings are among its
  issues.
\<close>

theorem C6_catch_findings_bypass_gate:
  "php_analyzeFile parse path (Some content) = Some a \<Longrightarrow> Contains path ''app/'' \<Longrightarrow>
   lcb_Apply parse content = Some finding \<Longrightarrow> 0 \<le> TopN config \<Longrightarrow>
     set (map (setPath path) (lc_Issues finding)) \<subseteq> set (php_Issues a)
     \<and> a \<in> set (php_retained config (before @ Some a # after))
     \<and> (\<exists>ranked issues.
          PHPAnalyzer_Run sortSlice config (before @ Some a # after) = Inr (ranked, issues)
          \<and> set (php_Issues a) \<subseteq> set issues)"
proof -
  assume a: "php_analyzeFile parse path (Some content) = Some a" and p: "Contains path ''app/''"
    and f: "lcb_Apply parse content = Some finding" and n: "0 \<le> TopN config"
  from a have i: "php_Issues a \<noteq> []" by (rule php_analyzeFile_issues)
  from php_run_issues [OF n, of sortSlice "before @ Some a # after"]
    php_walk_retains [OF i, of config _ before after]
  have "\<exists>ranked issues.
          PHPAnalyzer_Run sortSlice config (before @ Some a # after) = Inr (ranked, issues)
          \<and> set (php_Issues a) \<subseteq> set issues" by blast
  with php_catch_issues [OF a p f] php_retained_member [OF i, of config before after]
  show ?thesis by blast
qed

theorem C6_catch_findings_bypass_gate_witness:
  "php_analyzeFile (\<lambda>c. Some mixedTree) ''app/a.php'' (Some mixedContent) = Some mixedAnalysis
   \<and> Contains ''app/a.php'' ''app/''
   \<and> lcb_Apply (\<lambda>c. Some mixedTree) mixedContent \<noteq> None
   \<and> 0 \<le> TopN strictConfig
   \<and> mixedAnalysis \<in> set (php_retained strictConfig ([None] @ Some mixedAnalysis # []))
   \<and> (\<exists>ranked issues.
          PHPAnalyzer_Run insertionSort strictConfig ([None] @ Some mixedAnalysis # []) =
            Inr (ranked, issues)
          \<and> set (php_Issues mixedAnalysis) \<subseteq> set issues)"
proof -
  have n: "0 \<le> TopN strictConfig" by (simp add: strictConfig_def)
  from C6_catch_findings_bypass_gate [OF mixed_analysis mixed_path mixed_lcb n, of "[None]" "[]" insertionSort]
    mixed_analysis mixed_path mixed_lcb n
  show ?thesis by simp
qed

text \<open>
  The claim as stated fails on a file that has a catch-block finding and one commented
  function: with a minimum of 5 commented functions the file is retained and its two
  issues are returned, although its findings did not come solely from the catch-block
  rule and its count is below the minimum.
\<close>

theorem C6_gate_counterexample:
  "php_analyzeFile (\<lambda>c. Some mixedTree) ''app/a.php'' (Some mixedContent) = Some mixedAnalysis
   \<and> php_retained strictConfig [Some mixedAnalysis] = [mixedAnalysis]
   \<and> PHPAnalyzer_Run insertionSort strictConfig [Some mixedAnalysis] =
       Inr ([mixedAnalysis], php_Issues mixedAnalysis)
   \<and> \<not> spec_passesGate strictConfig mixedAnalysis"
proof -
  have r: "php_retained strictConfig [Some mixedAnalysis] = [mixedAnalysis]"
    by (simp add: php_retained_def php_visit_def mixedAnalysis_def strictConfig_def)
  have k: "php_sortKey strictConfig mixedAnalysis = 100"
    by (simp add: php_sortKey_def mixedAnalysis_def strictConfig_def)
  have run: "PHPAnalyzer_Run insertionSort strictConfig [Some mixedAnalysis] =
       Inr ([mixedAnalysis], php_Issues mixedAnalysis)"
    unfolding php_run_shape r Let_def insertionSort_def
    by (simp add: strictConfig_def) (simp add: php_visit_def mixedAnalysis_def)
  have g: "\<not> spec_passesGate strictConfig mixedAnalysis"
    by (simp add: spec_passesGate_def spec_solelyCatch_def strictConfig_def mixedAnalysis_def)
  from mixed_analysis r run g show ?thesis by (intro conjI)
qed

section \<open>The sort of the Go library and files with equal keys\<close>

text \<open>
  \<open>sort.Slice\<close> as the Go library implements it since Go 1.19 (the program is built with
  Go 1.24): pattern-defeating quicksort, \<open>pdqsort_func\<close> of \<open>sort/zsortfunc.go\<close>, called on
  the whole slice with the limit \<open>bits.Len(length)\<close>. The slice is a list. \<open>less(i, j)\<close> of the
  caller compares the elements at \<open>i\<close> and \<open>j\<close>, and \<open>swap(i, j)\<close> exchanges them. Indices
  are integers as in the library; inside the slice they are never negative. Every loop
  of the library is a recursive function of its own, named after the function it belongs
  to.
\<close>

unbundle bit_operations_syntax

text \<open>
  \<open>data.Less(i, j)\<close> and \<open>data.Swap(i, j)\<close>, and \<open>bits.Len\<close>, the number of bits of a number.
\<close>

definition Less :: "('a \<Rightarrow> 'a \<Rightarrow> bool) \<Rightarrow> 'a list \<Rightarrow> int \<Rightarrow> int \<Rightarrow> bool" where
  "Less lessf data i j = lessf (data ! nat i) (data ! nat j)"

definition Swap :: "'a list \<Rightarrow> int \<Rightarrow> int \<Rightarrow> 'a list" where
  "Swap data i j = data[nat i := data ! nat j, nat j := data ! nat i]"

fun bits_Len :: "nat \<Rightarrow> nat" where
  "bits_Len n = (if n = 0 then 0 else Suc (bits_Len (n div 2)))"

declare bits_Len.simps [simp del]

text \<open>
  \<open>insertionSort_func\<close>: for \<open>i\<close> from \<open>a + 1\<close> to \<open>b - 1\<close>, the element at \<open>i\<close> moves down
  while it is less than the one before it
  (\<open>for j := i; j > a && data.Less(j, j-1); j-- { data.Swap(j, j-1) }\<close>).
\<close>

function insertDown :: "('a \<Rightarrow> 'a \<Rightarrow> bool) \<Rightarrow> 'a list \<Rightarrow> int \<Rightarrow> int \<Rightarrow> 'a list" where
  "insertDown lessf data a j =
     (if j > a \<and> Less lessf data j (j - 1)
      then insertDown lessf (Swap data j (j - 1)) a (j - 1)
      else data)"
  by pat_completeness auto
termination
  by (relation "measure (\<lambda>(lessf, data, a, j). nat (j - a))") auto

declare insertDown.simps [simp del]

definition insertionSort_func :: "('a \<Rightarrow> 'a \<Rightarrow> bool) \<Rightarrow> 'a list \<Rightarrow> int \<Rightarrow> int \<Rightarrow> 'a list" where
  "insertionSort_func lessf data a b =
     foldl (\<lambda>data i. insertDown lessf data a i) data [a + 1 .. b - 1]"

text \<open>
  \<open>siftDown_func\<close> and \<open>heapSort_func\<close>. The heap indices \<open>root\<close>, \<open>child\<close>, \<open>lo\<close> and \<open>hi\<close> are
  natural numbers (they start at \<open>0\<close> and grow); the two loops of \<open>heapSort_func\<close> count
  \<open>i\<close> down to \<open>0\<close>, from \<open>(hi - 1) / 2\<close> and from \<open>hi - 1\<close>.
\<close>

function siftDown_func :: "('a \<Rightarrow> 'a \<Rightarrow> bool) \<Rightarrow> 'a list \<Rightarrow> nat \<Rightarrow> nat \<Rightarrow> int \<Rightarrow> 'a list" where
  "siftDown_func lessf data rootIx hi first =
     (let child = 2 * rootIx + 1 in
      if child \<ge> hi then data
      else
        (let child = (if child + 1 < hi
                         \<and> Less lessf data (first + int child) (first + int child + 1)
                      then child + 1 else child)
         in if \<not> Less lessf data (first + int rootIx) (first + int child) then data
            else siftDown_func lessf (Swap data (first + int rootIx) (first + int child)) child hi first))"
  by pat_completeness auto
termination
  by (relation "measure (\<lambda>(lessf, data, rootIx, hi, first). hi - rootIx)") (auto split: if_splits)

declare siftDown_func.simps [simp del]

definition heapSort_func :: "('a \<Rightarrow> 'a \<Rightarrow> bool) \<Rightarrow> 'a list \<Rightarrow> int \<Rightarrow> int \<Rightarrow> 'a list" where
  "heapSort_func lessf data a b =
     (let first = a;
          lo = 0;
          hi = nat (b - a);
          data = foldl (\<lambda>data i. siftDown_func lessf data i hi first) data
                   (rev [0 ..< Suc ((hi - 1) div 2)]);
          data = foldl (\<lambda>data i. siftDown_func lessf (Swap data first (first + int i)) lo i first) data
                   (rev [0 ..< hi])
      in data)"

text \<open>
  \<open>partition_func\<close>. Its two scans: \<open>for i <= j && data.Less(i, a) { i++ }\<close> and
  \<open>for i <= j && !data.Less(j, a) { j-- }\<close>. \<open>partitionLoop\<close> is the \<open>for\<close> loop after the first
  exchange; it ends with \<open>i > j\<close>. The function returns the slice, the new index of the
  pivot and whether the slice was already partitioned.
\<close>

function partitionUp :: "('a \<Rightarrow> 'a \<Rightarrow> bool) \<Rightarrow> 'a list \<Rightarrow> int \<Rightarrow> int \<Rightarrow> int \<Rightarrow> int" where
  "partitionUp lessf data a i j =
     (if i \<le> j \<and> Less lessf data i a then partitionUp lessf data a (i + 1) j else i)"
  by pat_completeness auto
termination
  by (relation "measure (\<lambda>(lessf, data, a, i, j). nat (j + 1 - i))") auto

function partitionDown :: "('a \<Rightarrow> 'a \<Rightarrow> bool) \<Rightarrow> 'a list \<Rightarrow> int \<Rightarrow> int \<Rightarrow> int \<Rightarrow> int" where
  "partitionDown lessf data a i j =
     (if i \<le> j \<and> \<not> Less lessf data j a then partitionDown lessf data a i (j - 1) else j)"
  by pat_completeness auto
termination
  by (relation "measure (\<lambda>(lessf, data, a, i, j). nat (j + 1 - i))") auto

declare partitionUp.simps [simp del] partitionDown.simps [simp del]

lemma partitionUp_ge: "i \<le> partitionUp lessf data a i j"
  by (induction lessf data a i j rule: partitionUp.induct)
    (subst partitionUp.simps, auto)

lemma partitionDown_le: "partitionDown lessf data a i j \<le> j"
  by (induction lessf data a i j rule: partitionDown.induct)
    (subst partitionDown.simps, auto)

lemma partitionDown_ge: "i - 1 \<le> j \<Longrightarrow> i - 1 \<le> partitionDown lessf data a i j"
  by (induction lessf data a i j rule: partitionDown.induct)
    (subst partitionDown.simps, auto)

function partitionLoop :: "('a \<Rightarrow> 'a \<Rightarrow> bool) \<Rightarrow> 'a list \<Rightarrow> int \<Rightarrow> int \<Rightarrow> int \<Rightarrow> 'a list \<times> int" where
  "partitionLoop lessf data a i j =
     (let i = partitionUp lessf data a i j;
          j = partitionDown lessf data a i j
      in if i > j then (data, j)
         else partitionLoop lessf (Swap data i j) a (i + 1) (j - 1))"
  by pat_completeness auto
termination
proof (relation "measure (\<lambda>(lessf, data, a, i, j). nat (j + 1 - i))", goal_cases)
  case 1
  show ?case by simp
next
  case (2 lessf data a i j i' j')
  with partitionUp_ge [of i lessf data a j] partitionDown_le [of lessf data a i' j]
  show ?case by simp
qed

declare partitionLoop.simps [simp del]

definition partition_func ::
  "('a \<Rightarrow> 'a \<Rightarrow> bool) \<Rightarrow> 'a list \<Rightarrow> int \<Rightarrow> int \<Rightarrow> int \<Rightarrow> 'a list \<times> int \<times> bool" where
  "partition_func lessf data a b pivot =
     (let data = Swap data a pivot;
          i = a + 1;
          j = b - 1;
          i = partitionUp lessf data a i j;
          j = partitionDown lessf data a i j
      in if i > j then (Swap data j a, j, True)
         else
           (let data = Swap data i j;
                i = i + 1;
                j = j - 1;
                (data, j) = partitionLoop lessf data a i j
            in (Swap data j a, j, False)))"

text \<open>
  \<open>partitionEqual_func\<close>, with the scans \<open>for i <= j && !data.Less(a, i) { i++ }\<close> and
  \<open>for i <= j && data.Less(a, j) { j-- }\<close>; it returns \<open>i\<close>.
\<close>

function partitionEqualUp :: "('a \<Rightarrow> 'a \<Rightarrow> bool) \<Rightarrow> 'a list \<Rightarrow> int \<Rightarrow> int \<Rightarrow> int \<Rightarrow> int" where
  "partitionEqualUp lessf data a i j =
     (if i \<le> j \<and> \<not> Less lessf data a i then partitionEqualUp lessf data a (i + 1) j else i)"
  by pat_completeness auto
termination
  by (relation "measure (\<lambda>(lessf, data, a, i, j). nat (j + 1 - i))") auto

function partitionEqualDown :: "('a \<Rightarrow> 'a \<Rightarrow> bool) \<Rightarrow> 'a list \<Rightarrow> int \<Rightarrow> int \<Rightarrow> int \<Rightarrow> int" where
  "partitionEqualDown lessf data a i j =
     (if i \<le> j \<and> Less lessf data a j then partitionEqualDown lessf data a i (j - 1) else j)"
  by pat_completeness auto
termination
  by (relation "measure (\<lambda>(lessf, data, a, i, j). nat (j + 1 - i))") auto

declare partitionEqualUp.simps [simp del] partitionEqualDown.simps [simp del]

lemma partitionEqualUp_ge: "i \<le> partitionEqualUp lessf data a i j"
  by (induction lessf data a i j rule: partitionEqualUp.induct)
    (subst partitionEqualUp.simps, auto)

lemma partitionEqualDown_le: "partitionEqualDown lessf data a i j \<le> j"
  by (induction lessf data a i j rule: partitionEqualDown.induct)
    (subst partitionEqualDown.simps, auto)

function partitionEqualLoop :: "('a \<Rightarrow> 'a \<Rightarrow> bool) \<Rightarrow> 'a list \<Rightarrow> int \<Rightarrow> int \<Rightarrow> int \<Rightarrow> 'a list \<times> int" where
  "partitionEqualLoop lessf data a i j =
     (let i = partitionEqualUp lessf data a i j;
          j = partitionEqualDown lessf data a i j
      in if i > j then (data, i)
         else partitionEqualLoop lessf (Swap data i j) a (i + 1) (j - 1))"
  by pat_completeness auto
termination
proof (relation "measure (\<lambda>(lessf, data, a, i, j). nat (j + 1 - i))", goal_cases)
  case 1
  show ?case by simp
next
  case (2 lessf data a i j i' j')
  with partitionEqualUp_ge [of i lessf data a j] partitionEqualDown_le [of lessf data a i' j]
  show ?case by simp
qed

declare partitionEqualLoop.simps [simp del]

definition partitionEqual_func ::
  "('a \<Rightarrow> 'a \<Rightarrow> bool) \<Rightarrow> 'a list \<Rightarrow> int \<Rightarrow> int \<Rightarrow> int \<Rightarrow> 'a list \<times> int" where
  "partitionEqual_func lessf data a b pivot =
     (let data = Swap data a pivot;
          i = a + 1;
          j = b - 1
      in partitionEqualLoop lessf data a i j)"


lemma partitionLoop_bounds:
  "a < i \<Longrightarrow> a \<le> j \<Longrightarrow> j < b \<Longrightarrow>
     a \<le> snd (partitionLoop lessf data a i j) \<and> snd (partitionLoop lessf data a i j) < b"
proof (induction lessf data a i j rule: partitionLoop.induct)
  case (1 lessf data a i j)
  define i' where "i' = partitionUp lessf data a i j"
  define j' where "j' = partitionDown lessf data a i' j"
  have i': "i \<le> i'" unfolding i'_def by (rule partitionUp_ge)
  have j': "j' \<le> j" unfolding j'_def by (rule partitionDown_le)
  show ?case
  proof (cases "i' > j'")
    case True
    have "a \<le> j'"
    proof (cases "i' \<le> j")
      case True
      then have "i' - 1 \<le> j'" unfolding j'_def by (intro partitionDown_ge) simp
      with i' "1.prems" show ?thesis by simp
    next
      case False
      then have "j' = j" unfolding j'_def by (subst partitionDown.simps) simp
      with "1.prems" show ?thesis by simp
    qed
    with True j' "1.prems" show ?thesis
      by (subst (1 2) partitionLoop.simps) (simp add: Let_def i'_def [symmetric] j'_def [symmetric])
  next
    case False
    from False i' j' "1.prems" have "a < i' + 1" "a \<le> j' - 1" "j' - 1 < b" by simp_all
    from "1.IH" [OF i'_def j'_def False this]
    show ?thesis using False
      by (subst (1 2) partitionLoop.simps) (simp add: Let_def i'_def [symmetric] j'_def [symmetric])
  qed
qed

lemma partition_func_bounds:
  assumes "a < b"
  shows "a \<le> fst (snd (partition_func lessf data a b pivot))
     \<and> fst (snd (partition_func lessf data a b pivot)) < b"
proof -
  define d where "d = Swap data a pivot"
  define i where "i = partitionUp lessf d a (a + 1) (b - 1)"
  define j where "j = partitionDown lessf d a i (b - 1)"
  have i: "a + 1 \<le> i" unfolding i_def by (rule partitionUp_ge)
  have j: "j \<le> b - 1" unfolding j_def by (rule partitionDown_le)
  have aj: "a \<le> j"
  proof (cases "i \<le> b - 1")
    case True
    then have "i - 1 \<le> j" unfolding j_def by (intro partitionDown_ge) simp
    with i show ?thesis by simp
  next
    case False
    then have "j = b - 1" unfolding j_def by (subst partitionDown.simps) simp
    with assms show ?thesis by simp
  qed
  show ?thesis
  proof (cases "i > j")
    case True
    with aj j show ?thesis
      by (simp add: partition_func_def Let_def d_def [symmetric] i_def [symmetric] j_def [symmetric])
  next
    case False
    with i j have "a < i + 1" "a \<le> j - 1" "j - 1 < b" by simp_all
    from partitionLoop_bounds [OF this, of lessf "Swap d i j"] False
    show ?thesis
      by (simp add: partition_func_def Let_def d_def [symmetric] i_def [symmetric] j_def [symmetric]
          split_def)
  qed
qed

lemma partitionEqualLoop_gt:
  "a < i \<Longrightarrow> a < snd (partitionEqualLoop lessf data a i j)"
proof (induction lessf data a i j rule: partitionEqualLoop.induct)
  case (1 lessf data a i j)
  define i' where "i' = partitionEqualUp lessf data a i j"
  define j' where "j' = partitionEqualDown lessf data a i' j"
  have i': "i \<le> i'" unfolding i'_def by (rule partitionEqualUp_ge)
  show ?case
  proof (cases "i' > j'")
    case True
    with i' "1.prems" show ?thesis
      by (subst partitionEqualLoop.simps) (simp add: Let_def i'_def [symmetric] j'_def [symmetric])
  next
    case False
    from i' "1.prems" have "a < i' + 1" by simp
    from "1.IH" [OF i'_def j'_def False this]
    show ?thesis using False
      by (subst partitionEqualLoop.simps) (simp add: Let_def i'_def [symmetric] j'_def [symmetric])
  qed
qed

lemma partitionEqual_func_gt: "a < snd (partitionEqual_func lessf data a b pivot)"
  unfolding partitionEqual_func_def Let_def by (rule partitionEqualLoop_gt) simp

text \<open>
  \<open>partialInsertionSort_func\<close>: at most five times, skip the sorted prefix
  (\<open>for i < b && !data.Less(i, i-1) { i++ }\<close>); stop when the end is reached or the slice is
  shorter than 50; otherwise exchange the pair out of order and shift the smaller element
  to the left (\<open>for j := i - 1; j >= 1; j--\<close>) and the greater one to the right
  (\<open>for j := i + 1; j < b; j++\<close>).
\<close>

function skipSorted :: "('a \<Rightarrow> 'a \<Rightarrow> bool) \<Rightarrow> 'a list \<Rightarrow> int \<Rightarrow> int \<Rightarrow> int" where
  "skipSorted lessf data i b =
     (if i < b \<and> \<not> Less lessf data i (i - 1) then skipSorted lessf data (i + 1) b else i)"
  by pat_completeness auto
termination
  by (relation "measure (\<lambda>(lessf, data, i, b). nat (b - i))") auto

function shiftLeft :: "('a \<Rightarrow> 'a \<Rightarrow> bool) \<Rightarrow> 'a list \<Rightarrow> int \<Rightarrow> 'a list" where
  "shiftLeft lessf data j =
     (if j \<ge> 1
      then (if \<not> Less lessf data j (j - 1) then data
            else shiftLeft lessf (Swap data j (j - 1)) (j - 1))
      else data)"
  by pat_completeness auto
termination
  by (relation "measure (\<lambda>(lessf, data, j). nat j)") auto

function shiftRight :: "('a \<Rightarrow> 'a \<Rightarrow> bool) \<Rightarrow> 'a list \<Rightarrow> int \<Rightarrow> int \<Rightarrow> 'a list" where
  "shiftRight lessf data b j =
     (if j < b
      then (if \<not> Less lessf data j (j - 1) then data
            else shiftRight lessf (Swap data j (j - 1)) b (j + 1))
      else data)"
  by pat_completeness auto
termination
  by (relation "measure (\<lambda>(lessf, data, b, j). nat (b - j))") auto

declare skipSorted.simps [simp del] shiftLeft.simps [simp del] shiftRight.simps [simp del]

function partialInsertionLoop ::
  "('a \<Rightarrow> 'a \<Rightarrow> bool) \<Rightarrow> 'a list \<Rightarrow> int \<Rightarrow> int \<Rightarrow> int \<Rightarrow> nat \<Rightarrow> 'a list \<times> bool" where
  "partialInsertionLoop lessf data a b i j =
     (if j < 5
      then
        (let i = skipSorted lessf data i b in
         if i = b then (data, True)
         else if b - a < 50 then (data, False)
         else
           (let data = Swap data i (i - 1);
                data = (if i - a \<ge> 2 then shiftLeft lessf data (i - 1) else data);
                data = (if b - i \<ge> 2 then shiftRight lessf data b (i + 1) else data)
            in partialInsertionLoop lessf data a b i (j + 1)))
      else (data, False))"
  by pat_completeness auto
termination
  by (relation "measure (\<lambda>(lessf, data, a, b, i, j). 5 - j)") auto

declare partialInsertionLoop.simps [simp del]

definition partialInsertionSort_func ::
  "('a \<Rightarrow> 'a \<Rightarrow> bool) \<Rightarrow> 'a list \<Rightarrow> int \<Rightarrow> int \<Rightarrow> 'a list \<times> bool" where
  "partialInsertionSort_func lessf data a b = partialInsertionLoop lessf data a b (a + 1) 0"

text \<open>
  \<open>breakPatterns_func\<close> exchanges three elements around the middle with elements chosen by
  the generator \<open>xorshift\<close>, a 64-bit word seeded with the length:
  \<open>r ^= r << 13; r ^= r >> 7; r ^= r << 17\<close>.
\<close>

definition xorshift_Next :: "64 word \<Rightarrow> 64 word" where
  "xorshift_Next r =
     (let r = r XOR push_bit 13 r;
          r = r XOR drop_bit 7 r;
          r = r XOR push_bit 17 r
      in r)"

definition nextPowerOfTwo :: "int \<Rightarrow> 64 word" where
  "nextPowerOfTwo len = (let shift = bits_Len (nat len) in push_bit shift 1)"

definition breakPatterns_func :: "'a list \<Rightarrow> int \<Rightarrow> int \<Rightarrow> 'a list" where
  "breakPatterns_func data a b =
     (let len = b - a in
      if len \<ge> 8
      then
        (let random = (word_of_int len :: 64 word);
             modulus = nextPowerOfTwo len;
             idx = a + (len div 4) * 2 - 1
         in fst (foldl (\<lambda>(data, random) i.
                   (let random = xorshift_Next random;
                        other = uint (random AND (modulus - 1));
                        other = (if other \<ge> len then other - len else other)
                    in (Swap data (idx - 1 + i) (a + other), random)))
                 (data, random) [0, 1, 2]))
      else data)"

text \<open>
  \<open>choosePivot_func\<close>: the median of the elements at the three quarter points, for 50
  elements and more the median of the medians of their neighbourhoods; \<open>swaps\<close> counts the
  exchanges of indices, and no exchange means the slice is likely sorted.
\<close>

datatype sortedHint = unknownHint | increasingHint | decreasingHint

definition order2_func ::
  "('a \<Rightarrow> 'a \<Rightarrow> bool) \<Rightarrow> 'a list \<Rightarrow> int \<Rightarrow> int \<Rightarrow> nat \<Rightarrow> int \<times> int \<times> nat" where
  "order2_func lessf data a b swaps =
     (if Less lessf data b a then (b, a, swaps + 1) else (a, b, swaps))"

definition median_func ::
  "('a \<Rightarrow> 'a \<Rightarrow> bool) \<Rightarrow> 'a list \<Rightarrow> int \<Rightarrow> int \<Rightarrow> int \<Rightarrow> nat \<Rightarrow> int \<times> nat" where
  "median_func lessf data a b c swaps =
     (let (a, b, swaps) = order2_func lessf data a b swaps;
          (b, c, swaps) = order2_func lessf data b c swaps;
          (a, b, swaps) = order2_func lessf data a b swaps
      in (b, swaps))"

definition medianAdjacent_func ::
  "('a \<Rightarrow> 'a \<Rightarrow> bool) \<Rightarrow> 'a list \<Rightarrow> int \<Rightarrow> nat \<Rightarrow> int \<times> nat" where
  "medianAdjacent_func lessf data a swaps = median_func lessf data (a - 1) a (a + 1) swaps"

definition choosePivot_func ::
  "('a \<Rightarrow> 'a \<Rightarrow> bool) \<Rightarrow> 'a list \<Rightarrow> int \<Rightarrow> int \<Rightarrow> int \<times> sortedHint" where
  "choosePivot_func lessf data a b =
     (let l = b - a;
          swaps = 0;
          i = a + l div 4 * 1;
          j = a + l div 4 * 2;
          k = a + l div 4 * 3;
          (j, swaps) =
            (if l \<ge> 8
             then
               (let (i, j, k, swaps) =
                      (if l \<ge> 50
                       then
                         (let (i, swaps) = medianAdjacent_func lessf data i swaps;
                              (j, swaps) = medianAdjacent_func lessf data j swaps;
                              (k, swaps) = medianAdjacent_func lessf data k swaps
                          in (i, j, k, swaps))
                       else (i, j, k, swaps))
                in median_func lessf data i j k swaps)
             else (j, swaps))
      in if swaps = 0 then (j, increasingHint)
         else if swaps = 4 * 3 then (j, decreasingHint)
         else (j, unknownHint))"

text \<open>
  \<open>reverseRange_func\<close>: \<open>for i < j { data.Swap(i, j); i++; j-- }\<close> from \<open>a\<close> and \<open>b - 1\<close>.
\<close>

function reverseLoop :: "'a list \<Rightarrow> int \<Rightarrow> int \<Rightarrow> 'a list" where
  "reverseLoop data i j = (if i < j then reverseLoop (Swap data i j) (i + 1) (j - 1) else data)"
  by pat_completeness auto
termination
  by (relation "measure (\<lambda>(data, i, j). nat (j - i))") auto

declare reverseLoop.simps [simp del]

definition reverseRange_func :: "'a list \<Rightarrow> int \<Rightarrow> int \<Rightarrow> 'a list" where
  "reverseRange_func data a b = reverseLoop data a (b - 1)"


lemma partition_func_mid:
  "(d, mid, ap) = partition_func lessf data a b pivot \<Longrightarrow> \<not> b - a \<le> 12 \<Longrightarrow>
     a \<le> mid \<and> mid < b"
  using partition_func_bounds [of a b lessf data pivot]
  by (cases "partition_func lessf data a b pivot") auto

lemma partitionEqual_func_mid:
  "(d, mid) = partitionEqual_func lessf data a b pivot \<Longrightarrow> a < mid"
  using partitionEqual_func_gt [of a lessf data b pivot]
  by (cases "partitionEqual_func lessf data a b pivot") auto

text \<open>
  \<open>pdqsort_func\<close>. The loop of the library carries \<open>a\<close>, \<open>b\<close>, \<open>limit\<close> and the two flags
  \<open>wasBalanced\<close> and \<open>wasPartitioned\<close>; they are the arguments here, and the recursive call
  of the library on the shorter side starts with both flags set. The loop ends because a
  partition leaves the pivot inside \<open>[a, b)\<close>, which the lemmas before the definition show.
\<close>

function pdqsort_func ::
  "('a \<Rightarrow> 'a \<Rightarrow> bool) \<Rightarrow> 'a list \<Rightarrow> int \<Rightarrow> int \<Rightarrow> nat \<Rightarrow> bool \<Rightarrow> bool \<Rightarrow> 'a list" where
  "pdqsort_func lessf data a b limit wasBalanced wasPartitioned =
     (let len = b - a in
      if len \<le> 12 then insertionSort_func lessf data a b
      else if limit = 0 then heapSort_func lessf data a b
      else
        (let (data, limit) =
               (if \<not> wasBalanced then (breakPatterns_func data a b, limit - 1) else (data, limit));
             (pivot, hint) = choosePivot_func lessf data a b;
             (data, pivot, hint) =
               (if hint = decreasingHint
                then (reverseRange_func data a b, (b - 1) - (pivot - a), increasingHint)
                else (data, pivot, hint));
             (data, sorted) =
               (if wasBalanced \<and> wasPartitioned \<and> hint = increasingHint
                then partialInsertionSort_func lessf data a b
                else (data, False))
         in if sorted then data
            else if a > 0 \<and> \<not> Less lessf data (a - 1) pivot
            then
              (let (data, mid) = partitionEqual_func lessf data a b pivot
               in pdqsort_func lessf data mid b limit wasBalanced wasPartitioned)
            else
              (let (data, mid, alreadyPartitioned) = partition_func lessf data a b pivot;
                   wasPartitioned = alreadyPartitioned;
                   leftLen = mid - a;
                   rightLen = b - mid;
                   balanceThreshold = len div 8
               in if leftLen < rightLen
                  then pdqsort_func lessf (pdqsort_func lessf data a mid limit True True)
                         (mid + 1) b limit (leftLen \<ge> balanceThreshold) wasPartitioned
                  else pdqsort_func lessf (pdqsort_func lessf data (mid + 1) b limit True True)
                         a mid limit (rightLen \<ge> balanceThreshold) wasPartitioned)))"
  by pat_completeness auto
termination
  by (relation "measure (\<lambda>(lessf, data, a, b, limit, wb, wp). nat (b - a))")
    (auto dest: partition_func_mid partitionEqual_func_mid)

declare pdqsort_func.simps [simp del]

text \<open>
  \<open>sort.Slice(x, less)\<close>.
\<close>

definition sort_Slice :: "('a \<Rightarrow> 'a \<Rightarrow> bool) \<Rightarrow> 'a list \<Rightarrow> 'a list" where
  "sort_Slice lessf x =
     (let len = int (length x);
          limit = bits_Len (nat len)
      in pdqsort_func lessf x 0 len limit True True)"


text \<open>
  \<open>JSAnalyzer.analyzeFile\<close>. Its arguments are the path and what \<open>os.ReadFile\<close> gives:
  \<open>None\<close> on an error, otherwise the content. \<open>js_walk\<close> is the list that \<open>Run\<close> works
  on: what \<open>analyzeFile\<close> returns for the files of the walk, each given by its path and
  its content, in walk order.

  Example inputs: thirteen files in the lexical order of the walk, twelve with one
  content and the last with another, and what \<open>analyzeFile\<close> returns for them.
\<close>

definition js_analyzeFile :: "string \<Rightarrow> string option \<Rightarrow> error + JSFileAnalysis option" where
  "js_analyzeFile path readFile =
     (case readFile of
        None \<Rightarrow> Inr None
      | Some content \<Rightarrow>
          (case js_Apply content of
             Inl e \<Rightarrow> Inl e
           | Inr None \<Rightarrow> Inr None
           | Inr (Some result) \<Rightarrow>
               if CommentedBytes result = 0 then Inr None
               else
                 (let issues = map (setPath path) (Issues result);
                      totalBytes = length content;
                      totalLines = countNL content + 1;
                      ratio = real (CommentedBytes result) / real totalBytes * 100
                  in Inr (Some \<lparr>js_Path = path,
                                  js_TotalLines = totalLines,
                                  js_CommentedLines = CommentedLines result,
                                  js_CommentedBytes = CommentedBytes result,
                                  js_TotalBytes = totalBytes,
                                  js_CommentRatio = ratio,
                                  js_LargestBlock = LargestBlock result,
                                  js_Issues = issues\<rparr>))))"

definition js_walk :: "(string \<times> string) list \<Rightarrow> (error + JSFileAnalysis option) list" where
  "js_walk files = map (\<lambda>(path, content). js_analyzeFile path (Some content)) files"

definition tiedContent :: string where
  "tiedContent = ''// x = 1;\<newline>run();''"

definition topContent :: string where
  "topContent = ''// x = 1;''"

definition tiedAnalysis :: "string \<Rightarrow> JSFileAnalysis" where
  "tiedAnalysis path =
     \<lparr>js_Path = path, js_TotalLines = 2, js_CommentedLines = 1, js_CommentedBytes = 9,
      js_TotalBytes = 16, js_CommentRatio = 225 / 4, js_LargestBlock = 9,
      js_Issues = [\<lparr>Path = path, Description = ''Commented out JS code block (9 bytes)'',
                    Line = 1, Severity = ''minor''\<rparr>]\<rparr>"

definition topAnalysis :: "string \<Rightarrow> JSFileAnalysis" where
  "topAnalysis path =
     \<lparr>js_Path = path, js_TotalLines = 1, js_CommentedLines = 1, js_CommentedBytes = 9,
      js_TotalBytes = 9, js_CommentRatio = 100, js_LargestBlock = 9,
      js_Issues = [\<lparr>Path = path, Description = ''Commented out JS code block (9 bytes)'',
                    Line = 1, Severity = ''minor''\<rparr>]\<rparr>"

definition thirteenFiles :: "(string \<times> string) list" where
  "thirteenFiles =
     [(''a.js'', tiedContent), (''b.js'', tiedContent), (''c.js'', tiedContent),
      (''d.js'', tiedContent), (''e.js'', tiedContent), (''f.js'', tiedContent),
      (''g.js'', tiedContent), (''h.js'', tiedContent), (''i.js'', tiedContent),
      (''j.js'', tiedContent), (''k.js'', tiedContent), (''l.js'', tiedContent),
      (''m.js'', topContent)]"

definition thirteenAnalyses :: "JSFileAnalysis list" where
  "thirteenAnalyses =
     [tiedAnalysis ''a.js'', tiedAnalysis ''b.js'', tiedAnalysis ''c.js'', tiedAnalysis ''d.js'',
      tiedAnalysis ''e.js'', tiedAnalysis ''f.js'', tiedAnalysis ''g.js'', tiedAnalysis ''h.js'',
      tiedAnalysis ''i.js'', tiedAnalysis ''j.js'', tiedAnalysis ''k.js'', tiedAnalysis ''l.js'',
      topAnalysis ''m.js'']"

lemma tied_apply: "js_Apply tiedContent =
    Inr (Some \<lparr>CommentedBytes = 9, CommentedLines = 1, LargestBlock = 9,
          Issues = [\<lparr>Path = [], Description = ''Commented out JS code block (9 bytes)'',
                     Line = 1, Severity = ''minor''\<rparr>]\<rparr>)"
  by code_simp

lemma top_apply: "js_Apply topContent =
    Inr (Some \<lparr>CommentedBytes = 9, CommentedLines = 1, LargestBlock = 9,
          Issues = [\<lparr>Path = [], Description = ''Commented out JS code block (9 bytes)'',
                     Line = 1, Severity = ''minor''\<rparr>]\<rparr>)"
  by code_simp

lemma tied_file: "js_analyzeFile path (Some tiedContent) = Inr (Some (tiedAnalysis path))"
  by (simp add: js_analyzeFile_def tied_apply tiedAnalysis_def setPath_def)
    (simp add: tiedContent_def countNL_def)

lemma top_file: "js_analyzeFile path (Some topContent) = Inr (Some (topAnalysis path))"
  by (simp add: js_analyzeFile_def top_apply topAnalysis_def setPath_def)
    (simp add: topContent_def countNL_def)

lemma thirteen_walk: "js_walk thirteenFiles = map Inr (map Some thirteenAnalyses)"
  by (simp add: js_walk_def thirteenFiles_def thirteenAnalyses_def tied_file top_file)

lemma thirteen_run:
  "JSAnalyzer_Run sort_Slice exampleConfig (map Some thirteenAnalyses) =
     Inr ([topAnalysis ''m.js'', tiedAnalysis ''g.js'', tiedAnalysis ''c.js'', tiedAnalysis ''d.js'',
           tiedAnalysis ''e.js'', tiedAnalysis ''f.js'', tiedAnalysis ''a.js'', tiedAnalysis ''h.js'',
           tiedAnalysis ''i.js'', tiedAnalysis ''j.js'', tiedAnalysis ''k.js'', tiedAnalysis ''l.js'',
           tiedAnalysis ''b.js''],
          concat (map js_Issues thirteenAnalyses))"
  by code_simp


lemma thirteen_retained:
  "js_retained exampleConfig (map Some thirteenAnalyses) = thirteenAnalyses"
  by code_simp

lemma thirteen_stable:
  "spec_stableRanking (js_sortKey exampleConfig) (TopN exampleConfig)
       (js_retained exampleConfig (map Some thirteenAnalyses)) =
     [topAnalysis ''m.js'', tiedAnalysis ''a.js'', tiedAnalysis ''b.js'', tiedAnalysis ''c.js'',
      tiedAnalysis ''d.js'', tiedAnalysis ''e.js'', tiedAnalysis ''f.js'', tiedAnalysis ''g.js'',
      tiedAnalysis ''h.js'', tiedAnalysis ''i.js'', tiedAnalysis ''j.js'', tiedAnalysis ''k.js'',
      tiedAnalysis ''l.js'']"
  unfolding thirteen_retained by code_simp

text \<open>
  C1 as the specification states it fails on a walk of thirteen files. Twelve files
  \<open>a.js\<close> to \<open>l.js\<close> have the same content and so the same ratio, and \<open>m.js\<close> has a
  higher ratio. The partition step of \<open>sort.Slice\<close> takes the seventh file as pivot: it
  exchanges \<open>g.js\<close> with \<open>a.js\<close>, then \<open>b.js\<close> with \<open>m.js\<close>, then \<open>m.js\<close> with \<open>g.js\<close>. The
  files of equal ratio come out in the order g, c, d, e, f, a, h, i, j, k, l, b, where the
  stable ranking keeps them in walk order.
\<close>

theorem C1_stable_ties_counterexample:
  "js_walk thirteenFiles = map Inr (map Some thirteenAnalyses)
   \<and> JSAnalyzer_Run sort_Slice exampleConfig (map Some thirteenAnalyses) =
       Inr ([topAnalysis ''m.js'', tiedAnalysis ''g.js'', tiedAnalysis ''c.js'', tiedAnalysis ''d.js'',
             tiedAnalysis ''e.js'', tiedAnalysis ''f.js'', tiedAnalysis ''a.js'', tiedAnalysis ''h.js'',
             tiedAnalysis ''i.js'', tiedAnalysis ''j.js'', tiedAnalysis ''k.js'', tiedAnalysis ''l.js'',
             tiedAnalysis ''b.js''],
            concat (map js_Issues thirteenAnalyses))
   \<and> spec_stableRanking (js_sortKey exampleConfig) (TopN exampleConfig)
         (js_retained exampleConfig (map Some thirteenAnalyses)) =
       [topAnalysis ''m.js'', tiedAnalysis ''a.js'', tiedAnalysis ''b.js'', tiedAnalysis ''c.js'',
        tiedAnalysis ''d.js'', tiedAnalysis ''e.js'', tiedAnalysis ''f.js'', tiedAnalysis ''g.js'',
        tiedAnalysis ''h.js'', tiedAnalysis ''i.js'', tiedAnalysis ''j.js'', tiedAnalysis ''k.js'',
        tiedAnalysis ''l.js'']
   \<and> js_sortKey exampleConfig (tiedAnalysis ''a.js'') = js_sortKey exampleConfig (tiedAnalysis ''g.js'')
   \<and> tiedAnalysis ''g.js'' \<noteq> tiedAnalysis ''a.js''"
proof -
  have k: "js_sortKey exampleConfig (tiedAnalysis ''a.js'') = js_sortKey exampleConfig (tiedAnalysis ''g.js'')"
    by (simp add: js_sortKey_def tiedAnalysis_def)
  have d: "tiedAnalysis ''g.js'' \<noteq> tiedAnalysis ''a.js''"
    by (simp add: tiedAnalysis_def)
  from thirteen_walk thirteen_run thirteen_stable k d show ?thesis by (intro conjI)
qed


end
